theory Spec2Isabelle
  imports Main "HOL-Library.AList"
begin

section \<open>Data model\<close>

text \<open>
  The pipeline domain of \<^verbatim>\<open>foundry\<close>: \<^verbatim>\<open>domain/pipelines/service.py\<close>
  (class \<^verbatim>\<open>PipelineService\<close>), \<^verbatim>\<open>domain/pipelines/schemas.py\<close> and the
  ORM classes \<^verbatim>\<open>Pipeline\<close>, \<^verbatim>\<open>PipelineRun\<close>, \<^verbatim>\<open>PipelineTask\<close> of
  \<^verbatim>\<open>infrastructure/database/models.py\<close>.

  Conventions of the embedding.
  \<^item> A UUID is a natural number; \<^verbatim>\<open>uuid4\<close> draws the next value of a counter kept in
    the database state, so that new primary keys are fresh.
  \<^item> \<^verbatim>\<open>datetime.now(timezone.utc)\<close> is a parameter \<open>now\<close> of the operation that reads the clock.
  \<^item> A JSON value the service never inspects (\<^verbatim>\<open>config\<close>, \<^verbatim>\<open>default_args\<close>,
    \<^verbatim>\<open>parameters\<close>) is a list of key/value strings.
  \<^item> An exception is a value of type \<open>error\<close>; an operation that writes returns the
    outcome together with the database as it stands when the operation ends, so that
    what a failing call leaves behind is stated, not assumed.
  \<^item> The columns of the three ORM classes share names (\<^verbatim>\<open>id\<close>, \<^verbatim>\<open>status\<close>, ...);
    the record fields carry the prefix \<open>p_\<close>, \<open>r_\<close>, \<open>t_\<close> of their class, and the fields of
    \<^verbatim>\<open>PipelineUpdate\<close> the prefix \<open>u_\<close>. The columns \<^verbatim>\<open>created_at\<close> and
    \<^verbatim>\<open>updated_at\<close> are read by none of the operations below and are left out.
  \<^item> Python's call stack is bounded: the traversal of the cycle check takes the number
    of frames the interpreter still grants when it starts as a parameter \<open>frames\<close>, and
    raises \<^verbatim>\<open>RecursionError\<close> when a call would need one more.
  \<^item> \<^verbatim>\<open>session.flush()\<close> in \<^verbatim>\<open>trigger_pipeline\<close> raises \<^verbatim>\<open>IntegrityError\<close>
    when a foreign key of a new row has no target, and \<^verbatim>\<open>OperationalError\<close> when the
    database does not execute it; the ids of the users table and the availability of the
    database at each flush are parameters of that operation.
\<close>

type_synonym uuid = nat
type_synonym datetime = nat
type_synonym json = "(string \<times> string) list"

datatype PipelineStatus = PENDING | RUNNING | SUCCESS | FAILED | CANCELLED

datatype error =
    NotFoundError string uuid
  | ValidationError string
  | KeyError string
  | AttributeError string
  | MultipleResultsFound
  | RecursionError
  | IntegrityError
  | OperationalError

record TaskDefinition =
  task_id :: string
  task_type :: string
  config :: json
  dependencies :: "string list"

record DAGDefinition =
  tasks :: "TaskDefinition list"
  default_args :: json

record Pipeline =
  p_id :: uuid
  p_tenant_id :: uuid
  p_name :: string
  p_description :: "string option"
  p_dag_definition :: DAGDefinition
  p_schedule :: "string option"
  p_enabled :: bool
  p_owner_id :: "uuid option"
  p_deleted_at :: "datetime option"

record PipelineRun =
  r_id :: uuid
  r_tenant_id :: uuid
  r_pipeline_id :: uuid
  r_status :: PipelineStatus
  r_trigger_type :: string
  r_start_time :: "datetime option"
  r_end_time :: "datetime option"
  r_parameters :: json
  r_error_message :: "string option"
  r_triggered_by :: "uuid option"

record PipelineTask =
  t_id :: uuid
  t_tenant_id :: uuid
  t_pipeline_run_id :: uuid
  t_task_id :: string
  t_status :: PipelineStatus
  t_start_time :: "datetime option"
  t_end_time :: "datetime option"
  t_error_message :: "string option"
  t_logs :: "string option"

record TriggerPipelineRequest =
  parameters :: json
  trigger_type :: string

record PipelineUpdate =
  u_description :: "string option"
  u_dag_definition :: "DAGDefinition option"
  u_schedule :: "string option"
  u_enabled :: "bool option"

text \<open>The three tables, rows in insertion order, and the counter behind \<^verbatim>\<open>uuid4\<close>.\<close>

record db =
  pipelines :: "Pipeline list"
  pipeline_runs :: "PipelineRun list"
  pipeline_tasks :: "PipelineTask list"
  next_uuid :: uuid

definition uuid4 :: "db \<Rightarrow> uuid \<times> db" where
  "uuid4 s = (next_uuid s, s\<lparr>next_uuid := Suc (next_uuid s)\<rparr>)"

text \<open>
  \<^verbatim>\<open>Result.scalar_one_or_none()\<close>: no row gives \<^verbatim>\<open>None\<close>, one row gives the row,
  more than one raises.
\<close>

definition scalar_one_or_none :: "'a list \<Rightarrow> error + 'a option" where
  "scalar_one_or_none rows =
     (case rows of
        [] \<Rightarrow> Inr None
      | [x] \<Rightarrow> Inr (Some x)
      | _ \<Rightarrow> Inl MultipleResultsFound)"

text \<open>Truth value of a \<^verbatim>\<open>str | None\<close>: \<^verbatim>\<open>None\<close> and the empty string are false.\<close>

definition truthy :: "string option \<Rightarrow> bool" where
  "truthy x = (case x of None \<Rightarrow> False | Some v \<Rightarrow> v \<noteq> [])"

section \<open>DAG validation\<close>

subsection \<open>\<^verbatim>\<open>_check_dag_cycles\<close>\<close>

text \<open>
  The dictionaries \<^verbatim>\<open>graph\<close> and \<^verbatim>\<open>color\<close> are association lists in insertion order:
  \<^const>\<open>map_of\<close> reads a key, \<^const>\<open>AList.update\<close> assigns one (in place when the key
  is present, at the end when it is new), as a Python \<^verbatim>\<open>dict\<close> does.
\<close>

datatype color = WHITE | GRAY | BLACK

type_synonym graph = "(string \<times> string list) list"
type_synonym colormap = "(string \<times> color) list"

text \<open>\<^verbatim>\<open>graph[task_id] = task.get("dependencies", [])\<close> for every task, in order.\<close>

definition build_graph :: "TaskDefinition list \<Rightarrow> graph" where
  "build_graph ts = fold (\<lambda>task g. AList.update (task_id task) (dependencies task) g) ts []"

text \<open>\<^verbatim>\<open>color = {task_id: WHITE for task_id in graph}\<close>\<close>

definition init_color :: "graph \<Rightarrow> colormap" where
  "init_color g = map (\<lambda>kv. (fst kv, WHITE)) g"

text \<open>\<^verbatim>\<open>graph.get(node, [])\<close>\<close>

definition graph_get :: "graph \<Rightarrow> string \<Rightarrow> string list" where
  "graph_get g node = (case map_of g node of None \<Rightarrow> [] | Some ns \<Rightarrow> ns)"

text \<open>
  The nested function \<^verbatim>\<open>dfs\<close> and its \<^verbatim>\<open>for neighbor in ...\<close> loop. The closure
  variable \<^verbatim>\<open>color\<close> is threaded through; the result is the returned boolean with the
  colouring at return. \<^verbatim>\<open>color[neighbor]\<close> raises \<^verbatim>\<open>KeyError\<close> on a missing key.
  Every call of \<^verbatim>\<open>dfs\<close> takes one frame of the call stack, which it holds while its
  loop runs: \<open>frames\<close> is the number of frames still available when \<^verbatim>\<open>dfs\<close> is called,
  and a call with none left raises \<^verbatim>\<open>RecursionError\<close>.
\<close>

fun
  dfs :: "graph \<Rightarrow> nat \<Rightarrow> string \<Rightarrow> colormap \<Rightarrow> error + (bool \<times> colormap)" and
  dfs_loop :: "graph \<Rightarrow> nat \<Rightarrow> string list \<Rightarrow> colormap \<Rightarrow> error + (bool \<times> colormap)"
where
  "dfs g 0 node color = Inl RecursionError"
| "dfs g (Suc frames) node color =
     (case dfs_loop g frames (graph_get g node) (AList.update node GRAY color) of
        Inl e \<Rightarrow> Inl e
      | Inr (found, color') \<Rightarrow>
          if found then Inr (True, color')
          else Inr (False, AList.update node BLACK color'))"
| "dfs_loop g frames [] color = Inr (False, color)"
| "dfs_loop g frames (neighbor # rest) color =
     (case map_of color neighbor of
        None \<Rightarrow> Inl (KeyError neighbor)
      | Some GRAY \<Rightarrow> Inr (True, color)
      | Some WHITE \<Rightarrow>
          (case dfs g frames neighbor color of
             Inl e \<Rightarrow> Inl e
           | Inr (found, color') \<Rightarrow>
               if found then Inr (True, color') else dfs_loop g frames rest color')
      | Some BLACK \<Rightarrow> dfs_loop g frames rest color)"

text \<open>
  The loop \<^verbatim>\<open>for task_id in graph: if color[task_id] == WHITE: if dfs(task_id): raise\<close>.
  On normal completion the final colouring is returned, so that what the traversal
  visited can be stated: \<open>check_dag_cycles_color\<close> is the body of
  \<^verbatim>\<open>_check_dag_cycles\<close> with the colouring it ends with, and \<open>check_dag_cycles\<close>
  forgets the colouring, as the Python function, which returns \<^verbatim>\<open>None\<close>.
\<close>

fun dfs_roots :: "graph \<Rightarrow> nat \<Rightarrow> string list \<Rightarrow> colormap \<Rightarrow> error + colormap" where
  "dfs_roots g frames [] color = Inr color"
| "dfs_roots g frames (tid # rest) color =
     (case map_of color tid of
        None \<Rightarrow> Inl (KeyError tid)
      | Some c \<Rightarrow>
          if c = WHITE then
            (case dfs g frames tid color of
               Inl e \<Rightarrow> Inl e
             | Inr (found, color') \<Rightarrow>
                 if found then Inl (ValidationError ''DAG contains a cycle'')
                 else dfs_roots g frames rest color')
          else dfs_roots g frames rest color)"

definition check_dag_cycles_color :: "nat \<Rightarrow> TaskDefinition list \<Rightarrow> error + colormap" where
  "check_dag_cycles_color frames ts =
     (let graph = build_graph ts; color = init_color graph
      in dfs_roots graph frames (map fst graph) color)"

definition check_dag_cycles :: "nat \<Rightarrow> TaskDefinition list \<Rightarrow> error + unit" where
  "check_dag_cycles frames ts =
     (case check_dag_cycles_color frames ts of Inl e \<Rightarrow> Inl e | Inr _ \<Rightarrow> Inr ())"

subsection \<open>\<^verbatim>\<open>_validate_dag\<close>\<close>

text \<open>The first loop: every task has a \<^verbatim>\<open>task_id\<close>, and no \<^verbatim>\<open>task_id\<close> occurs twice.\<close>

fun validate_task_ids :: "TaskDefinition list \<Rightarrow> string set \<Rightarrow> error + string set" where
  "validate_task_ids [] task_ids = Inr task_ids"
| "validate_task_ids (task # rest) task_ids =
     (if task_id task = [] then Inl (ValidationError ''Each task must have a task_id'')
      else if task_id task \<in> task_ids
        then Inl (ValidationError (''Duplicate task_id: '' @ task_id task))
      else validate_task_ids rest (insert (task_id task) task_ids))"

text \<open>
  The second loop, inner and outer: every dependency is a known \<^verbatim>\<open>task_id\<close>. The
  message is \<^verbatim>\<open>f"Task '{task['task_id']}' depends on unknown task '{dep}'"\<close>; the
  apostrophe is \<open>CHR 0x27\<close>.
\<close>

fun validate_task_dependencies :: "string \<Rightarrow> string list \<Rightarrow> string set \<Rightarrow> error + unit" where
  "validate_task_dependencies tid [] task_ids = Inr ()"
| "validate_task_dependencies tid (dep # rest) task_ids =
     (if dep \<notin> task_ids
        then Inl (ValidationError
                    (''Task '' @ [CHR 0x27] @ tid @ [CHR 0x27] @ '' depends on unknown task ''
                @ [CHR 0x27] @ dep @ [CHR 0x27]))
      else validate_task_dependencies tid rest task_ids)"

fun validate_dependencies :: "TaskDefinition list \<Rightarrow> string set \<Rightarrow> error + unit" where
  "validate_dependencies [] task_ids = Inr ()"
| "validate_dependencies (task # rest) task_ids =
     (case validate_task_dependencies (task_id task) (dependencies task) task_ids of
        Inl e \<Rightarrow> Inl e
      | Inr _ \<Rightarrow> validate_dependencies rest task_ids)"

definition validate_dag :: "nat \<Rightarrow> DAGDefinition \<Rightarrow> error + unit" where
  "validate_dag frames dag_definition =
     (let ts = tasks dag_definition
      in if ts = [] then Inl (ValidationError ''DAG must have at least one task'')
         else
           (case validate_task_ids ts {} of
              Inl e \<Rightarrow> Inl e
            | Inr task_ids \<Rightarrow>
                (case validate_dependencies ts task_ids of
                   Inl e \<Rightarrow> Inl e
                 | Inr _ \<Rightarrow> check_dag_cycles frames ts)))"

section \<open>Pipeline operations\<close>

text \<open>
  Every operation belongs to a \<^verbatim>\<open>PipelineService\<close> constructed for one tenant; the
  first argument \<open>tenant\<close> is \<^verbatim>\<open>self.tenant_id\<close>, the second the database that
  \<^verbatim>\<open>self.session\<close> reads and writes.
\<close>

definition get_pipeline :: "uuid \<Rightarrow> db \<Rightarrow> uuid \<Rightarrow> error + Pipeline" where
  "get_pipeline tenant s pipeline_id =
     (case scalar_one_or_none
             (filter (\<lambda>p. p_id p = pipeline_id \<and> p_tenant_id p = tenant \<and> p_deleted_at p = None)
                (pipelines s)) of
        Inl e \<Rightarrow> Inl e
      | Inr None \<Rightarrow> Inl (NotFoundError ''Pipeline'' pipeline_id)
      | Inr (Some pipeline) \<Rightarrow> Inr pipeline)"

text \<open>
  \<^verbatim>\<open>update_pipeline\<close>. \<^verbatim>\<open>data.model_dump(exclude_unset=True)\<close> turns the nested
  \<^verbatim>\<open>DAGDefinition\<close> into a dictionary (pydantic dumps sub-models recursively), which
  is never empty because \<^verbatim>\<open>tasks\<close> is a required field; so whenever a
  \<^verbatim>\<open>dag_definition\<close> is supplied the guard at line 146 holds and the call
  \<^verbatim>\<open>update_data["dag_definition"].model_dump()\<close> of line 147 is made on a
  \<^verbatim>\<open>dict\<close>, which raises \<^verbatim>\<open>AttributeError\<close> before anything is written. Without a
  \<^verbatim>\<open>dag_definition\<close>, every field that is not \<^verbatim>\<open>None\<close> is assigned.
\<close>

definition update_pipeline ::
  "uuid \<Rightarrow> db \<Rightarrow> uuid \<Rightarrow> PipelineUpdate \<Rightarrow> (error + Pipeline) \<times> db" where
  "update_pipeline tenant s pipeline_id data =
     (case get_pipeline tenant s pipeline_id of
        Inl e \<Rightarrow> (Inl e, s)
      | Inr pipeline \<Rightarrow>
          (case u_dag_definition data of
             Some d \<Rightarrow> (Inl (AttributeError ''model_dump''), s)
           | None \<Rightarrow>
               (let p1 = (case u_description data of
                            None \<Rightarrow> pipeline
                          | Some v \<Rightarrow> pipeline\<lparr>p_description := Some v\<rparr>);
                    p2 = (case u_schedule data of
                            None \<Rightarrow> p1
                          | Some v \<Rightarrow> p1\<lparr>p_schedule := Some v\<rparr>);
                    p3 = (case u_enabled data of
                            None \<Rightarrow> p2
                          | Some v \<Rightarrow> p2\<lparr>p_enabled := v\<rparr>)
                in (Inr p3,
                    s\<lparr>pipelines :=
                        map (\<lambda>p. if p_id p = p_id p3 then p3 else p) (pipelines s)\<rparr>))))"

subsection \<open>\<^verbatim>\<open>trigger_pipeline\<close>\<close>

text \<open>One turn of the loop \<^verbatim>\<open>for task_def in dag.get("tasks", [])\<close>.\<close>

definition add_task :: "uuid \<Rightarrow> uuid \<Rightarrow> TaskDefinition \<Rightarrow> db \<Rightarrow> db" where
  "add_task tenant run_id task_def s =
     (let (new_id, s1) = uuid4 s;
          task = \<lparr>t_id = new_id, t_tenant_id = tenant, t_pipeline_run_id = run_id,
                  t_task_id = task_id task_def, t_status = PENDING,
                  t_start_time = None, t_end_time = None,
                  t_error_message = None, t_logs = None\<rparr>
      in s1\<lparr>pipeline_tasks := pipeline_tasks s1 @ [task]\<rparr>)"

text \<open>
  \<^verbatim>\<open>trigger_pipeline\<close> writes in two flushes inside the transaction of the session:
  the first inserts the run, the second the tasks that were added to the session in
  between. \<open>users\<close> is the set of ids of the users table, on which
  \<^verbatim>\<open>pipeline_runs.triggered_by\<close> has a foreign key (the other foreign keys of the new
  rows point to the pipeline that was just read and to the new run); \<open>db_up k\<close> tells
  whether the database executes the \<open>k\<close>-th flush of the call. A flush that raises
  inserts nothing; the database returned is the one the transaction sees when the
  operation ends.
\<close>

definition trigger_pipeline ::
  "uuid \<Rightarrow> uuid set \<Rightarrow> (nat \<Rightarrow> bool) \<Rightarrow> db \<Rightarrow> uuid \<Rightarrow> TriggerPipelineRequest \<Rightarrow> uuid option
     \<Rightarrow> (error + PipelineRun) \<times> db"
where
  "trigger_pipeline tenant users db_up s pipeline_id data user_id =
     (case get_pipeline tenant s pipeline_id of
        Inl e \<Rightarrow> (Inl e, s)
      | Inr pipeline \<Rightarrow>
          if \<not> p_enabled pipeline then (Inl (ValidationError ''Pipeline is disabled''), s)
          else
            (let (new_id, s1) = uuid4 s;
                 pipeline_run = \<lparr>r_id = new_id, r_tenant_id = tenant,
                                 r_pipeline_id = pipeline_id, r_status = PENDING,
                                 r_trigger_type = trigger_type data,
                                 r_start_time = None, r_end_time = None,
                                 r_parameters = parameters data,
                                 r_error_message = None, r_triggered_by = user_id\<rparr>
             in if \<not> db_up 0 then (Inl OperationalError, s1)
                else if (case user_id of None \<Rightarrow> False | Some u \<Rightarrow> u \<notin> users)
                  then (Inl IntegrityError, s1)
                else
                  (let s2 = s1\<lparr>pipeline_runs := pipeline_runs s1 @ [pipeline_run]\<rparr>;
                       dag = p_dag_definition pipeline;
                       s3 = fold (add_task tenant (r_id pipeline_run)) (tasks dag) s2
                   in if \<not> db_up 1 then (Inl OperationalError, s2)
                      else (Inr pipeline_run, s3))))"


subsection \<open>Run and task status\<close>

definition get_pipeline_run :: "uuid \<Rightarrow> db \<Rightarrow> uuid \<Rightarrow> error + PipelineRun" where
  "get_pipeline_run tenant s run_id =
     (case scalar_one_or_none
             (filter (\<lambda>r. r_id r = run_id \<and> r_tenant_id r = tenant) (pipeline_runs s)) of
        Inl e \<Rightarrow> Inl e
      | Inr None \<Rightarrow> Inl (NotFoundError ''PipelineRun'' run_id)
      | Inr (Some run) \<Rightarrow> Inr run)"

text \<open>\<^verbatim>\<open>status in (SUCCESS, FAILED, CANCELLED)\<close>\<close>

definition is_finished :: "PipelineStatus \<Rightarrow> bool" where
  "is_finished status = (status = SUCCESS \<or> status = FAILED \<or> status = CANCELLED)"

text \<open>
  The assignments of \<^verbatim>\<open>update_run_status\<close> to the loaded row, lines 315 to 323.
\<close>

definition set_run_status ::
  "PipelineRun \<Rightarrow> PipelineStatus \<Rightarrow> string option \<Rightarrow> datetime \<Rightarrow> PipelineRun" where
  "set_run_status run status error_message now =
     (let run1 = (if status = RUNNING \<and> r_status run = PENDING
                  then run\<lparr>r_start_time := Some now\<rparr> else run);
          run2 = (if is_finished status
                  then (let run' = run1\<lparr>r_end_time := Some now\<rparr>
                        in if truthy error_message
                           then run'\<lparr>r_error_message := error_message\<rparr> else run')
                  else run1)
      in run2\<lparr>r_status := status\<rparr>)"

definition update_run_status ::
  "uuid \<Rightarrow> db \<Rightarrow> uuid \<Rightarrow> PipelineStatus \<Rightarrow> string option \<Rightarrow> datetime
     \<Rightarrow> (error + PipelineRun) \<times> db" where
  "update_run_status tenant s run_id status error_message now =
     (case get_pipeline_run tenant s run_id of
        Inl e \<Rightarrow> (Inl e, s)
      | Inr run \<Rightarrow>
          (let run' = set_run_status run status error_message now
           in (Inr run',
               s\<lparr>pipeline_runs :=
                   map (\<lambda>r. if r_id r = r_id run' then run' else r) (pipeline_runs s)\<rparr>)))"

definition cancel_pipeline_run ::
  "uuid \<Rightarrow> db \<Rightarrow> uuid \<Rightarrow> datetime \<Rightarrow> (error + PipelineRun) \<times> db" where
  "cancel_pipeline_run tenant s run_id now =
     (case get_pipeline_run tenant s run_id of
        Inl e \<Rightarrow> (Inl e, s)
      | Inr run \<Rightarrow>
          if r_status run \<noteq> PENDING \<and> r_status run \<noteq> RUNNING
          then (Inl (ValidationError ''Cannot cancel a completed pipeline run''), s)
          else update_run_status tenant s run_id CANCELLED None now)"

text \<open>
  The assignments of \<^verbatim>\<open>update_task_status\<close> to the loaded row, lines 373 to 383.
\<close>

definition set_task_status ::
  "PipelineTask \<Rightarrow> PipelineStatus \<Rightarrow> string option \<Rightarrow> string option \<Rightarrow> datetime
     \<Rightarrow> PipelineTask" where
  "set_task_status task status error_message logs now =
     (let task1 = (if status = RUNNING \<and> t_status task = PENDING
                   then task\<lparr>t_start_time := Some now\<rparr> else task);
          task2 = (if is_finished status then task1\<lparr>t_end_time := Some now\<rparr> else task1);
          task3 = task2\<lparr>t_status := status\<rparr>;
          task4 = (if truthy error_message
                   then task3\<lparr>t_error_message := error_message\<rparr> else task3)
      in if truthy logs then task4\<lparr>t_logs := logs\<rparr> else task4)"

text \<open>The \<^verbatim>\<open>select(PipelineTask)\<close> of lines 363 to 369.\<close>

definition select_task :: "uuid \<Rightarrow> db \<Rightarrow> uuid \<Rightarrow> error + PipelineTask option" where
  "select_task tenant s tid =
     scalar_one_or_none
       (filter (\<lambda>t. t_id t = tid \<and> t_tenant_id t = tenant) (pipeline_tasks s))"

definition update_task_status ::
  "uuid \<Rightarrow> db \<Rightarrow> uuid \<Rightarrow> PipelineStatus \<Rightarrow> string option \<Rightarrow> string option \<Rightarrow> datetime
     \<Rightarrow> (error + PipelineTask) \<times> db" where
  "update_task_status tenant s tid status error_message logs now =
     (case select_task tenant s tid of
        Inl e \<Rightarrow> (Inl e, s)
      | Inr None \<Rightarrow> (Inl (NotFoundError ''PipelineTask'' tid), s)
      | Inr (Some task) \<Rightarrow>
          (let task' = set_task_status task status error_message logs now
           in (Inr task',
               s\<lparr>pipeline_tasks :=
                   map (\<lambda>t. if t_id t = t_id task' then task' else t) (pipeline_tasks s)\<rparr>)))"

section \<open>Example data\<close>

text \<open>
  The two-task DAG of the specification's examples (\<open>A\<close> without dependencies, \<open>B\<close>
  depending on \<open>A\<close>), a database holding one enabled pipeline with that DAG for tenant
  \<open>7\<close>, and the database after one run of it has been triggered.
\<close>

definition task_def :: "string \<Rightarrow> string list \<Rightarrow> TaskDefinition" where
  "task_def tid deps = \<lparr>task_id = tid, task_type = ''training'', config = [], dependencies = deps\<rparr>"

definition dag_ab :: DAGDefinition where
  "dag_ab = \<lparr>tasks = [task_def ''A'' [], task_def ''B'' [''A'']], default_args = []\<rparr>"

definition pipeline_ab :: Pipeline where
  "pipeline_ab = \<lparr>p_id = 1, p_tenant_id = 7, p_name = ''train'', p_description = None,
                   p_dag_definition = dag_ab, p_schedule = None, p_enabled = True,
                   p_owner_id = None, p_deleted_at = None\<rparr>"

definition db_ab :: db where
  "db_ab = \<lparr>pipelines = [pipeline_ab], pipeline_runs = [], pipeline_tasks = [], next_uuid = 2\<rparr>"

definition manual :: TriggerPipelineRequest where
  "manual = \<lparr>parameters = [], trigger_type = ''manual''\<rparr>"

definition db_run :: db where
  "db_run = snd (trigger_pipeline 7 {} (\<lambda>k. True) db_ab 1 manual None)"

text \<open>Task \<open>A\<close> of that run after it was reported failed, with a message and logs.\<close>

definition task_a_failed :: PipelineTask where
  "task_a_failed = \<lparr>t_id = 3, t_tenant_id = 7, t_pipeline_run_id = 2, t_task_id = ''A'',
                     t_status = FAILED, t_start_time = None, t_end_time = Some 11,
                     t_error_message = Some ''boom'', t_logs = Some ''line 1''\<rparr>"

definition db_a_failed :: db where
  "db_a_failed =
     snd (update_task_status 7 db_run 3 FAILED (Some ''boom'') (Some ''line 1'') 11)"

text \<open>Task \<open>A\<close> dispatched, and task \<open>A\<close> succeeded.\<close>

definition db_a_running :: db where
  "db_a_running = snd (update_task_status 7 db_run 3 RUNNING None None 10)"

definition db_a_success :: db where
  "db_a_success = snd (update_task_status 7 db_run 3 SUCCESS None None 12)"

text \<open>
  The run dispatched (with task \<open>A\<close> running), the run then set back to
  \<^const>\<open>PENDING\<close>, and the run completed.
\<close>

definition db_run_running :: db where
  "db_run_running = snd (update_run_status 7 db_a_running 2 RUNNING None 10)"

definition db_run_back :: db where
  "db_run_back = snd (update_run_status 7 db_run_running 2 PENDING None 11)"

definition db_run_success :: db where
  "db_run_success = snd (update_run_status 7 db_run 2 SUCCESS None 20)"

text \<open>
  The same pipeline with another DAG over the same task ids (\<open>B\<close> no longer depends
  on \<open>A\<close>), and the same pipeline disabled.
\<close>

definition dag_flat :: DAGDefinition where
  "dag_flat = \<lparr>tasks = [task_def ''A'' [], task_def ''B'' []], default_args = []\<rparr>"

definition db_flat :: db where
  "db_flat = db_ab\<lparr>pipelines := [pipeline_ab\<lparr>p_dag_definition := dag_flat\<rparr>]\<rparr>"


text \<open>
  The run row that \<^verbatim>\<open>trigger_pipeline\<close> builds when the next primary key is \<open>n\<close>,
  and the rows that its loop adds for a list of task definitions; used to state what
  the operation computes.
\<close>

definition new_run_row ::
  "uuid \<Rightarrow> uuid \<Rightarrow> TriggerPipelineRequest \<Rightarrow> uuid option \<Rightarrow> uuid \<Rightarrow> PipelineRun" where
  "new_run_row tenant pipeline_id data user_id n =
     \<lparr>r_id = n, r_tenant_id = tenant, r_pipeline_id = pipeline_id, r_status = PENDING,
      r_trigger_type = trigger_type data, r_start_time = None, r_end_time = None,
      r_parameters = parameters data, r_error_message = None, r_triggered_by = user_id\<rparr>"

primrec new_task_rows :: "uuid \<Rightarrow> uuid \<Rightarrow> uuid \<Rightarrow> TaskDefinition list \<Rightarrow> PipelineTask list" where
  "new_task_rows tenant run_id n [] = []"
| "new_task_rows tenant run_id n (d # ds) =
     \<lparr>t_id = n, t_tenant_id = tenant, t_pipeline_run_id = run_id,
      t_task_id = task_id d, t_status = PENDING,
      t_start_time = None, t_end_time = None,
      t_error_message = None, t_logs = None\<rparr>
     # new_task_rows tenant run_id (Suc n) ds"

section \<open>Specification of the cycle check\<close>

text \<open>
  The dependency relation of a task list (an edge from a task to each of its
  dependencies), and what it means for it to have a cycle. \<open>graph_edges\<close> is the same
  relation read off the adjacency dictionary that \<^verbatim>\<open>_check_dag_cycles\<close> builds.
\<close>

definition task_edges :: "TaskDefinition list \<Rightarrow> (string \<times> string) set" where
  "task_edges ts = {(task_id t, d) | t d. t \<in> set ts \<and> d \<in> set (dependencies t)}"

definition has_cycle :: "TaskDefinition list \<Rightarrow> bool" where
  "has_cycle ts = (\<exists>u. (u, u) \<in> (task_edges ts)\<^sup>+)"

definition graph_edges :: "graph \<Rightarrow> (string \<times> string) set" where
  "graph_edges g = {(u, v). v \<in> set (graph_get g u)}"

definition graph_cyclic :: "graph \<Rightarrow> bool" where
  "graph_cyclic g = (\<exists>u. (u, u) \<in> (graph_edges g)\<^sup>+)"

text \<open>The number of nodes not yet visited, which bounds the depth of the recursion.\<close>

definition whites :: "colormap \<Rightarrow> nat" where
  "whites color = length (filter (\<lambda>kv. snd kv = WHITE) color)"

text \<open>
  The invariant of the traversal: every finished (\<^const>\<open>BLACK\<close>) node has only finished
  successors and lies on no cycle. And what a call that found no cycle has done to the
  colouring: the keys and their order are kept, finished nodes stay finished, the set of
  nodes in progress (\<^const>\<open>GRAY\<close>) is the same, no node has become unvisited, and the
  invariant holds.
\<close>

definition black_closed :: "graph \<Rightarrow> colormap \<Rightarrow> bool" where
  "black_closed g c =
     (\<forall>u. map_of c u = Some BLACK \<longrightarrow>
        (\<forall>v \<in> set (graph_get g u). map_of c v = Some BLACK) \<and> (u, u) \<notin> (graph_edges g)\<^sup>+)"

definition dfs_post :: "graph \<Rightarrow> colormap \<Rightarrow> colormap \<Rightarrow> bool" where
  "dfs_post g c c' =
     (map fst c' = map fst c
      \<and> (\<forall>k. map_of c k = Some BLACK \<longrightarrow> map_of c' k = Some BLACK)
      \<and> (\<forall>k. map_of c' k = Some GRAY \<longleftrightarrow> map_of c k = Some GRAY)
      \<and> whites c' \<le> whites c
      \<and> black_closed g c')"

text \<open>
  The DAGs of the specification's examples: the cycle \<open>A, B, C\<close> in which each task
  depends on the previous one and \<open>A\<close> on \<open>C\<close>; the tasks \<open>B\<close> and \<open>C\<close> both
  depending on \<open>A\<close>; and a DAG in two components, the second of which is a cycle that
  no dependency of the first task leads to.
\<close>

definition dag_cycle :: DAGDefinition where
  "dag_cycle = \<lparr>tasks = [task_def ''A'' [''C''], task_def ''B'' [''A''], task_def ''C'' [''B'']],
                 default_args = []\<rparr>"

definition dag_diamond :: DAGDefinition where
  "dag_diamond = \<lparr>tasks = [task_def ''A'' [], task_def ''B'' [''A''], task_def ''C'' [''A'']],
                   default_args = []\<rparr>"

definition dag_two_parts :: DAGDefinition where
  "dag_two_parts = \<lparr>tasks = [task_def ''A'' [], task_def ''B'' [''A''],
                              task_def ''C'' [''D''], task_def ''D'' [''C'']],
                     default_args = []\<rparr>"

text \<open>DAGs that fail the structural checks: no task, a repeated id, an unknown dependency.\<close>

definition dag_empty :: DAGDefinition where
  "dag_empty = \<lparr>tasks = [], default_args = []\<rparr>"

definition dag_duplicate :: DAGDefinition where
  "dag_duplicate = \<lparr>tasks = [task_def ''A'' [], task_def ''B'' [''Z''], task_def ''A'' []],
                     default_args = []\<rparr>"

definition dag_dangling :: DAGDefinition where
  "dag_dangling = \<lparr>tasks = [task_def ''A'' [], task_def ''B'' [''A'', ''Z'']],
                    default_args = []\<rparr>"

section \<open>Auxiliary facts\<close>

lemma scalar_one_or_none_Some:
  "scalar_one_or_none rows = Inr (Some x) \<longleftrightarrow> rows = [x]"
  by (auto simp: scalar_one_or_none_def split: list.splits)

lemma db_run_eq:
  "db_run =
     \<lparr>pipelines = [pipeline_ab],
      pipeline_runs =
        [\<lparr>r_id = 2, r_tenant_id = 7, r_pipeline_id = 1, r_status = PENDING,
          r_trigger_type = ''manual'', r_start_time = None, r_end_time = None,
          r_parameters = [], r_error_message = None, r_triggered_by = None\<rparr>],
      pipeline_tasks =
        [\<lparr>t_id = 3, t_tenant_id = 7, t_pipeline_run_id = 2, t_task_id = ''A'',
          t_status = PENDING, t_start_time = None, t_end_time = None,
          t_error_message = None, t_logs = None\<rparr>,
         \<lparr>t_id = 4, t_tenant_id = 7, t_pipeline_run_id = 2, t_task_id = ''B'',
          t_status = PENDING, t_start_time = None, t_end_time = None,
          t_error_message = None, t_logs = None\<rparr>],
      next_uuid = 5\<rparr>"
  by (simp add: db_run_def trigger_pipeline_def get_pipeline_def scalar_one_or_none_def
      db_ab_def pipeline_ab_def dag_ab_def task_def_def manual_def add_task_def uuid4_def
      Let_def)

lemma select_task_found:
  assumes "select_task tenant s tid = Inr (Some task)"
  shows "task \<in> set (pipeline_tasks s)" and "t_id task = tid" and "t_tenant_id task = tenant"
proof -
  from assms
  have "filter (\<lambda>t. t_id t = tid \<and> t_tenant_id t = tenant) (pipeline_tasks s) = [task]"
    by (simp add: select_task_def scalar_one_or_none_Some)
  then have "task \<in> set (filter (\<lambda>t. t_id t = tid \<and> t_tenant_id t = tenant) (pipeline_tasks s))"
    by simp
  then show "task \<in> set (pipeline_tasks s)" and "t_id task = tid"
    and "t_tenant_id task = tenant"
    by auto
qed

lemma set_task_status_id [simp]:
  "t_id (set_task_status task status error_message logs now) = t_id task"
  "t_tenant_id (set_task_status task status error_message logs now) = t_tenant_id task"
  "t_pipeline_run_id (set_task_status task status error_message logs now) = t_pipeline_run_id task"
  "t_task_id (set_task_status task status error_message logs now) = t_task_id task"
  "t_status (set_task_status task status error_message logs now) = status"
  by (simp_all add: set_task_status_def Let_def)

lemma update_task_status_found:
  assumes "select_task tenant s tid = Inr (Some task)"
  shows "update_task_status tenant s tid status error_message logs now =
           (Inr (set_task_status task status error_message logs now),
            s\<lparr>pipeline_tasks :=
                map (\<lambda>t. if t_id t = tid
                          then set_task_status task status error_message logs now else t)
                  (pipeline_tasks s)\<rparr>)"
  using assms select_task_found(2)[OF assms]
  by (simp add: update_task_status_def Let_def)

lemma select_task_other:
  assumes "t_id task' = tid" and "tid2 \<noteq> tid"
  shows "select_task tenant
           (s\<lparr>pipeline_tasks := map (\<lambda>t. if t_id t = tid then task' else t) (pipeline_tasks s)\<rparr>)
           tid2 = select_task tenant s tid2"
proof -
  have "filter (\<lambda>t. t_id t = tid2 \<and> t_tenant_id t = tenant)
          (map (\<lambda>t. if t_id t = tid then task' else t) ts)
        = filter (\<lambda>t. t_id t = tid2 \<and> t_tenant_id t = tenant) ts" for ts
    using assms by (induction ts) auto
  then show ?thesis by (simp add: select_task_def)
qed

lemma get_pipeline_run_found:
  assumes "get_pipeline_run tenant s run_id = Inr run"
  shows "run \<in> set (pipeline_runs s)" and "r_id run = run_id" and "r_tenant_id run = tenant"
proof -
  from assms
  have "filter (\<lambda>r. r_id r = run_id \<and> r_tenant_id r = tenant) (pipeline_runs s) = [run]"
    by (auto simp: get_pipeline_run_def scalar_one_or_none_def
        split: list.splits sum.splits option.splits)
  then have "run \<in> set (filter (\<lambda>r. r_id r = run_id \<and> r_tenant_id r = tenant) (pipeline_runs s))"
    by simp
  then show "run \<in> set (pipeline_runs s)" and "r_id run = run_id" and "r_tenant_id run = tenant"
    by auto
qed

lemma set_run_status_fields [simp]:
  "r_id (set_run_status run status error_message now) = r_id run"
  "r_tenant_id (set_run_status run status error_message now) = r_tenant_id run"
  "r_pipeline_id (set_run_status run status error_message now) = r_pipeline_id run"
  "r_status (set_run_status run status error_message now) = status"
  by (simp_all add: set_run_status_def Let_def)

lemma update_run_status_found:
  assumes "get_pipeline_run tenant s run_id = Inr run"
  shows "update_run_status tenant s run_id status error_message now =
           (Inr (set_run_status run status error_message now),
            s\<lparr>pipeline_runs :=
                map (\<lambda>r. if r_id r = run_id
                          then set_run_status run status error_message now else r)
                  (pipeline_runs s)\<rparr>)"
  using assms get_pipeline_run_found(2)[OF assms]
  by (simp add: update_run_status_def Let_def)

lemma update_run_status_stored:
  assumes "get_pipeline_run tenant s run_id = Inr run"
  shows "set_run_status run status error_message now
           \<in> set (map (\<lambda>r. if r_id r = run_id
                             then set_run_status run status error_message now else r)
                     (pipeline_runs s))"
  using get_pipeline_run_found(1,2)[OF assms] by force

lemma fold_add_task:
  "fold (add_task tenant run_id) ds s =
     s\<lparr>pipeline_tasks := pipeline_tasks s @ new_task_rows tenant run_id (next_uuid s) ds,
       next_uuid := next_uuid s + length ds\<rparr>"
proof (induction ds arbitrary: s)
  case Nil
  show ?case by simp
next
  case (Cons d ds)
  let ?s1 = "add_task tenant run_id d s"
  have "fold (add_task tenant run_id) (d # ds) s = fold (add_task tenant run_id) ds ?s1"
    by simp
  also have "\<dots> = ?s1\<lparr>pipeline_tasks :=
                        pipeline_tasks ?s1 @ new_task_rows tenant run_id (next_uuid ?s1) ds,
                      next_uuid := next_uuid ?s1 + length ds\<rparr>"
    by (rule Cons.IH)
  also have "\<dots> = s\<lparr>pipeline_tasks :=
                       pipeline_tasks s @ new_task_rows tenant run_id (next_uuid s) (d # ds),
                     next_uuid := next_uuid s + length (d # ds)\<rparr>"
    by (simp add: add_task_def uuid4_def)
  finally show ?case .
qed




lemma new_task_rows_cong:
  "map task_id ds = map task_id ds' \<Longrightarrow>
     new_task_rows tenant run_id n ds = new_task_rows tenant run_id n ds'"
proof (induction ds arbitrary: n ds')
  case Nil
  then show ?case by simp
next
  case (Cons d ds)
  then obtain d' ds2 where "ds' = d' # ds2" by (cases ds') auto
  with Cons show ?case by auto
qed

lemma trigger_pipeline_found:
  assumes "get_pipeline tenant s pipeline_id = Inr pipeline" and "p_enabled pipeline"
  shows "trigger_pipeline tenant users db_up s pipeline_id data user_id =
     (if \<not> db_up 0 then (Inl OperationalError, s\<lparr>next_uuid := Suc (next_uuid s)\<rparr>)
      else if (case user_id of None \<Rightarrow> False | Some u \<Rightarrow> u \<notin> users)
        then (Inl IntegrityError, s\<lparr>next_uuid := Suc (next_uuid s)\<rparr>)
      else if \<not> db_up 1
        then (Inl OperationalError,
              s\<lparr>pipeline_runs := pipeline_runs s @
                     [new_run_row tenant pipeline_id data user_id (next_uuid s)],
                next_uuid := Suc (next_uuid s)\<rparr>)
      else
        (Inr (new_run_row tenant pipeline_id data user_id (next_uuid s)),
         s\<lparr>pipeline_runs := pipeline_runs s @
                [new_run_row tenant pipeline_id data user_id (next_uuid s)],
           pipeline_tasks := pipeline_tasks s @
                new_task_rows tenant (next_uuid s) (Suc (next_uuid s))
                  (tasks (p_dag_definition pipeline)),
           next_uuid := Suc (next_uuid s) + length (tasks (p_dag_definition pipeline))\<rparr>))"
  using assms
  by (simp add: trigger_pipeline_def uuid4_def fold_add_task new_run_row_def Let_def)

lemma new_run_row_fields [simp]:
  "r_id (new_run_row tenant pipeline_id data user_id n) = n"
  "r_status (new_run_row tenant pipeline_id data user_id n) = PENDING"
  "r_pipeline_id (new_run_row tenant pipeline_id data user_id n) = pipeline_id"
  "r_tenant_id (new_run_row tenant pipeline_id data user_id n) = tenant"
  "r_triggered_by (new_run_row tenant pipeline_id data user_id n) = user_id"
  by (simp_all add: new_run_row_def)

lemmas example_defs =
  db_run_eq update_task_status_def select_task_def scalar_one_or_none_def
  set_task_status_def is_finished_def truthy_def Let_def
  update_run_status_def get_pipeline_run_def set_run_status_def cancel_pipeline_run_def

section \<open>Facts about the structural checks\<close>

lemma validate_task_ids_ok:
  "\<forall>t \<in> set ts. task_id t \<noteq> [] \<Longrightarrow> distinct (map task_id ts) \<Longrightarrow>
     set (map task_id ts) \<inter> acc = {} \<Longrightarrow>
     validate_task_ids ts acc = Inr (acc \<union> set (map task_id ts))"
  by (induction ts arbitrary: acc) auto

lemma validate_task_ids_dup:
  assumes "\<forall>t \<in> set ts. task_id t \<noteq> []"
    and "\<not> (distinct (map task_id ts) \<and> set (map task_id ts) \<inter> acc = {})"
  shows "\<exists>pre d post. map task_id ts = pre @ d # post \<and> distinct pre
           \<and> set pre \<inter> acc = {} \<and> d \<in> set pre \<union> acc
           \<and> validate_task_ids ts acc = Inl (ValidationError (''Duplicate task_id: '' @ d))"
  using assms
proof (induction ts arbitrary: acc)
  case Nil
  then show ?case by simp
next
  case (Cons t ts)
  show ?case
  proof (cases "task_id t \<in> acc")
    case True
    then have "validate_task_ids (t # ts) acc
                 = Inl (ValidationError (''Duplicate task_id: '' @ task_id t))"
      using Cons.prems(1) by simp
    moreover have "map task_id (t # ts) = [] @ task_id t # map task_id ts" by simp
    ultimately show ?thesis using True
      by (intro exI[of _ "[]"] exI[of _ "task_id t"] exI[of _ "map task_id ts"]) simp
  next
    case False
    let ?acc = "insert (task_id t) acc"
    have step: "validate_task_ids (t # ts) acc = validate_task_ids ts ?acc"
      using False Cons.prems(1) by simp
    have "\<not> (distinct (map task_id ts) \<and> set (map task_id ts) \<inter> ?acc = {})"
      using Cons.prems(2) False by auto
    with Cons.IH[of ?acc] Cons.prems(1)
    obtain pre d post where p: "map task_id ts = pre @ d # post" "distinct pre"
         "set pre \<inter> ?acc = {}" "d \<in> set pre \<union> ?acc"
         "validate_task_ids ts ?acc = Inl (ValidationError (''Duplicate task_id: '' @ d))"
      by auto
    have "map task_id (t # ts) = (task_id t # pre) @ d # post" using p(1) by simp
    moreover have "distinct (task_id t # pre)" using p(2,3) by auto
    moreover have "set (task_id t # pre) \<inter> acc = {}" using p(3) False by auto
    moreover have "d \<in> set (task_id t # pre) \<union> acc" using p(4) by auto
    moreover have "validate_task_ids (t # ts) acc = Inl (ValidationError (''Duplicate task_id: '' @ d))"
      using step p(5) by simp
    ultimately show ?thesis by blast
  qed
qed

lemma validate_task_dependencies_ok:
  "set deps \<subseteq> task_ids \<Longrightarrow> validate_task_dependencies tid deps task_ids = Inr ()"
  by (induction deps) auto

lemma validate_task_dependencies_unknown:
  "\<not> set deps \<subseteq> task_ids \<Longrightarrow>
     \<exists>dep. dep \<in> set deps \<and> dep \<notin> task_ids \<and>
          validate_task_dependencies tid deps task_ids =
            Inl (ValidationError (''Task '' @ [CHR 0x27] @ tid @ [CHR 0x27] @ '' depends on unknown task ''
                @ [CHR 0x27] @ dep @ [CHR 0x27]))"
proof (induction deps)
  case Nil
  then show ?case by simp
next
  case (Cons a deps)
  show ?case
  proof (cases "a \<in> task_ids")
    case True
    with Cons obtain dep where "dep \<in> set deps" "dep \<notin> task_ids"
      "validate_task_dependencies tid deps task_ids =
            Inl (ValidationError (''Task '' @ [CHR 0x27] @ tid @ [CHR 0x27] @ '' depends on unknown task ''
                @ [CHR 0x27] @ dep @ [CHR 0x27]))"
      by auto
    then show ?thesis using True by (intro exI[of _ dep]) simp
  next
    case False
    then show ?thesis by (intro exI[of _ a]) simp
  qed
qed

lemma validate_dependencies_ok:
  "\<forall>t \<in> set ts. set (dependencies t) \<subseteq> task_ids \<Longrightarrow> validate_dependencies ts task_ids = Inr ()"
  by (induction ts) (auto simp: validate_task_dependencies_ok)

lemma validate_dependencies_unknown:
  "\<not> (\<forall>t \<in> set ts. set (dependencies t) \<subseteq> task_ids) \<Longrightarrow>
   \<exists>t dep. t \<in> set ts \<and> dep \<in> set (dependencies t) \<and> dep \<notin> task_ids \<and>
          validate_dependencies ts task_ids =
            Inl (ValidationError (''Task '' @ [CHR 0x27] @ task_id t @ [CHR 0x27] @ '' depends on unknown task ''
                @ [CHR 0x27] @ dep @ [CHR 0x27]))"
proof (induction ts)
  case Nil
  then show ?case by simp
next
  case (Cons t ts)
  show ?case
  proof (cases "set (dependencies t) \<subseteq> task_ids")
    case True
    then have "validate_dependencies (t # ts) task_ids = validate_dependencies ts task_ids"
      by (simp add: validate_task_dependencies_ok)
    moreover from True Cons obtain t' dep where "t' \<in> set ts" "dep \<in> set (dependencies t')"
      "dep \<notin> task_ids"
      "validate_dependencies ts task_ids =
            Inl (ValidationError (''Task '' @ [CHR 0x27] @ task_id t' @ [CHR 0x27] @ '' depends on unknown task ''
                @ [CHR 0x27] @ dep @ [CHR 0x27]))"
      by auto
    ultimately show ?thesis by (intro exI[of _ t'] exI[of _ dep]) simp
  next
    case False
    from validate_task_dependencies_unknown[OF False, of "task_id t"]
    obtain dep where "dep \<in> set (dependencies t)" "dep \<notin> task_ids"
      "validate_task_dependencies (task_id t) (dependencies t) task_ids =
            Inl (ValidationError (''Task '' @ [CHR 0x27] @ task_id t @ [CHR 0x27] @ '' depends on unknown task ''
                @ [CHR 0x27] @ dep @ [CHR 0x27]))"
      by auto
    then show ?thesis by (intro exI[of _ t] exI[of _ dep]) simp
  qed
qed

lemma validate_dag_checked:
  assumes "tasks dag \<noteq> []" and "\<forall>t \<in> set (tasks dag). task_id t \<noteq> []"
    and "distinct (map task_id (tasks dag))"
    and "\<forall>t \<in> set (tasks dag). set (dependencies t) \<subseteq> set (map task_id (tasks dag))"
  shows "validate_dag frames dag = check_dag_cycles frames (tasks dag)"
proof -
  have "validate_task_ids (tasks dag) {} = Inr (set (map task_id (tasks dag)))"
    using validate_task_ids_ok[OF assms(2,3), of "{}"] by simp
  moreover have "validate_dependencies (tasks dag) (set (map task_id (tasks dag))) = Inr ()"
    by (rule validate_dependencies_ok[OF assms(4)])
  ultimately show ?thesis using assms(1) by (simp add: validate_dag_def Let_def)
qed

section \<open>Facts about the cycle check\<close>

lemma whites_update_le: "c \<noteq> WHITE \<Longrightarrow> whites (AList.update k c color) \<le> whites color"
  by (induction color) (auto simp: whites_def)

lemma whites_update_less:
  "map_of color k = Some WHITE \<Longrightarrow> c \<noteq> WHITE \<Longrightarrow>
     whites (AList.update k c color) < whites color"
proof (induction color)
  case Nil
  then show ?case by simp
next
  case (Cons a color)
  then show ?case
    using whites_update_le[of c k color]
    by (cases a) (auto simp: whites_def split: if_splits)
qed

lemma whites_init_color: "whites (init_color g) = length g"
  by (induction g) (simp_all add: whites_def init_color_def)


lemma update_keys_present:
  "map_of c k = Some v \<Longrightarrow> map fst (AList.update k w c) = map fst c"
  by (induction c) auto

lemma black_reach:
  assumes "black_closed g c" and "(v, w) \<in> (graph_edges g)\<^sup>*" and "map_of c v = Some BLACK"
  shows "map_of c w = Some BLACK"
  using assms(2,3)
proof (induction rule: rtrancl_induct)
  case base
  then show ?case by simp
next
  case (step y z)
  then have "map_of c y = Some BLACK" by simp
  moreover from step(2) have "z \<in> set (graph_get g y)" by (simp add: graph_edges_def)
  ultimately show ?case using assms(1) by (auto simp: black_closed_def)
qed

lemma dfs_post_refl: "black_closed g c \<Longrightarrow> dfs_post g c c"
  by (simp add: dfs_post_def)

lemma dfs_post_trans: "dfs_post g c c1 \<Longrightarrow> dfs_post g c1 c2 \<Longrightarrow> dfs_post g c c2"
  by (simp add: dfs_post_def)

lemma black_closed_gray:
  assumes "black_closed g c" and "map_of c n = Some WHITE"
  shows "black_closed g (AList.update n GRAY c)"
  unfolding black_closed_def
proof (intro allI impI)
  fix u
  assume "map_of (AList.update n GRAY c) u = Some BLACK"
  then have u: "map_of c u = Some BLACK" and "u \<noteq> n"
    by (auto simp: update_conv' split: if_splits)
  {
    fix v assume "v \<in> set (graph_get g u)"
    with u assms(1) have "map_of c v = Some BLACK" by (auto simp: black_closed_def)
    with assms(2) have "map_of (AList.update n GRAY c) v = Some BLACK"
      by (auto simp: update_conv')
  }
  moreover from u assms(1) have "(u, u) \<notin> (graph_edges g)\<^sup>+" by (auto simp: black_closed_def)
  ultimately show "(\<forall>v\<in>set (graph_get g u). map_of (AList.update n GRAY c) v = Some BLACK) \<and>
         (u, u) \<notin> (graph_edges g)\<^sup>+" by blast
qed

lemma black_closed_finish:
  assumes "black_closed g c" and "map_of c n = Some GRAY"
    and "\<forall>v \<in> set (graph_get g n). map_of c v = Some BLACK"
  shows "black_closed g (AList.update n BLACK c)"
  unfolding black_closed_def
proof (intro allI impI)
  fix u
  assume b: "map_of (AList.update n BLACK c) u = Some BLACK"
  have succ: "\<forall>v \<in> set (graph_get g u). map_of (AList.update n BLACK c) v = Some BLACK"
  proof (cases "u = n")
    case True
    with assms(3) show ?thesis by (auto simp: update_conv')
  next
    case False
    with b have "map_of c u = Some BLACK" by (simp add: update_conv')
    with assms(1) show ?thesis by (auto simp: black_closed_def update_conv')
  qed
  have "(u, u) \<notin> (graph_edges g)\<^sup>+"
  proof (cases "u = n")
    case True
    show ?thesis
    proof
      assume "(u, u) \<in> (graph_edges g)\<^sup>+"
      then obtain v where e: "(n, v) \<in> graph_edges g" and r: "(v, n) \<in> (graph_edges g)\<^sup>*"
        using True by (auto dest: tranclD)
      from e assms(3) have "map_of c v = Some BLACK" by (auto simp: graph_edges_def)
      from black_reach[OF assms(1) r this] assms(2) show False by simp
    qed
  next
    case False
    with b have "map_of c u = Some BLACK" by (simp add: update_conv')
    with assms(1) show ?thesis by (auto simp: black_closed_def)
  qed
  with succ show "(\<forall>v\<in>set (graph_get g u). map_of (AList.update n BLACK c) v = Some BLACK) \<and>
         (u, u) \<notin> (graph_edges g)\<^sup>+" by blast
qed

lemma dfs_correct:
  shows "\<forall>u. set (graph_get g u) \<subseteq> fst ` set g \<Longrightarrow>
         map_of c n = Some WHITE \<Longrightarrow> fst ` set g \<subseteq> fst ` set c \<Longrightarrow> black_closed g c \<Longrightarrow>
         \<forall>k. map_of c k = Some GRAY \<longrightarrow> (k, n) \<in> (graph_edges g)\<^sup>* \<Longrightarrow>
         whites c \<le> frames \<Longrightarrow>
         \<exists>b c'. dfs g frames n c = Inr (b, c') \<and> (b \<longrightarrow> graph_cyclic g)
               \<and> (\<not> b \<longrightarrow> dfs_post g c c' \<and> map_of c' n = Some BLACK)"
    and "\<forall>u. set (graph_get g u) \<subseteq> fst ` set g \<Longrightarrow>
         set ns \<subseteq> set (graph_get g p) \<Longrightarrow> fst ` set g \<subseteq> fst ` set c \<Longrightarrow> black_closed g c \<Longrightarrow>
         \<forall>k. map_of c k = Some GRAY \<longrightarrow> (k, p) \<in> (graph_edges g)\<^sup>* \<Longrightarrow>
         whites c \<le> frames \<Longrightarrow>
         \<exists>b c'. dfs_loop g frames ns c = Inr (b, c') \<and> (b \<longrightarrow> graph_cyclic g)
               \<and> (\<not> b \<longrightarrow> dfs_post g c c' \<and> (\<forall>v \<in> set ns. map_of c' v = Some BLACK))"
proof (induction g frames n c and g frames ns c arbitrary: and p rule: dfs_dfs_loop.induct)
  case (1 g node color)
  from whites_update_less[OF "1.prems"(2), of GRAY] "1.prems"(6) show ?case by simp
next
  case (2 g frames node color)
  note closed = "2.prems"(1) and white = "2.prems"(2) and keys = "2.prems"(3)
    and bc0 = "2.prems"(4) and gray = "2.prems"(5) and depth = "2.prems"(6)
  let ?c1 = "AList.update node GRAY color"
  have k1: "map fst ?c1 = map fst color" using white by (rule update_keys_present)
  have w1: "whites ?c1 < whites color" using white by (rule whites_update_less) simp
  have "fst ` set g \<subseteq> fst ` set ?c1"
    using keys k1 by (metis list.set_map)
  moreover have "black_closed g ?c1" using bc0 white by (rule black_closed_gray)
  moreover have "\<forall>k. map_of ?c1 k = Some GRAY \<longrightarrow> (k, node) \<in> (graph_edges g)\<^sup>*"
    using gray by (auto simp: update_conv')
  moreover have "whites ?c1 \<le> frames" using w1 depth by simp
  ultimately obtain b c2 where
    l: "dfs_loop g frames (graph_get g node) ?c1 = Inr (b, c2)"
    and bc: "b \<longrightarrow> graph_cyclic g"
    and nb: "\<not> b \<longrightarrow> dfs_post g ?c1 c2 \<and> (\<forall>v \<in> set (graph_get g node). map_of c2 v = Some BLACK)"
    using "2.IH"[OF closed, of node] by blast
  show ?case
  proof (cases b)
    case True
    with l bc show ?thesis by auto
  next
    case False
    with nb have post: "dfs_post g ?c1 c2"
      and succ: "\<forall>v \<in> set (graph_get g node). map_of c2 v = Some BLACK" by auto
    let ?c3 = "AList.update node BLACK c2"
    have g2: "map_of c2 node = Some GRAY"
      using post by (simp add: dfs_post_def update_conv')
    have "map fst ?c3 = map fst color"
      using update_keys_present[OF g2] post k1 by (simp add: dfs_post_def)
    moreover have "\<forall>k. map_of color k = Some BLACK \<longrightarrow> map_of ?c3 k = Some BLACK"
      using post white by (auto simp: dfs_post_def update_conv')
    moreover have "\<forall>k. map_of ?c3 k = Some GRAY \<longleftrightarrow> map_of color k = Some GRAY"
      using post white by (auto simp: dfs_post_def update_conv')
    moreover have "whites ?c3 \<le> whites color"
    proof -
      have "whites ?c3 \<le> whites c2" by (rule whites_update_le) simp
      also have "\<dots> \<le> whites ?c1" using post by (simp add: dfs_post_def)
      also have "\<dots> \<le> whites color" using w1 by simp
      finally show ?thesis .
    qed
    moreover have "black_closed g ?c3"
      using post g2 succ by (intro black_closed_finish) (auto simp: dfs_post_def)
    ultimately have "dfs_post g color ?c3" by (simp add: dfs_post_def)
    moreover have "map_of ?c3 node = Some BLACK" by (simp add: update_conv')
    ultimately show ?thesis using l False by auto
  qed
next
  case (3 g frames color)
  then show ?case by (auto simp: dfs_post_refl)
next
  case (4 g frames neighbor rest color)
  note closed = "4.prems"(1) and keys = "4.prems"(3) and bc0 = "4.prems"(4)
    and gray = "4.prems"(5) and depth = "4.prems"(6)
  have nb: "neighbor \<in> set (graph_get g p)" and rest: "set rest \<subseteq> set (graph_get g p)"
    using "4.prems"(2) by auto
  have "neighbor \<in> fst ` set g" using nb closed by blast
  then have "neighbor \<in> fst ` set color" using keys by blast
  then obtain col where col: "map_of color neighbor = Some col"
    by (metis domD dom_map_of_conv_image_fst)
  show ?case
  proof (cases col)
    case GRAY
    with col gray have "(neighbor, p) \<in> (graph_edges g)\<^sup>*" by simp
    moreover have "(p, neighbor) \<in> graph_edges g" using nb by (simp add: graph_edges_def)
    ultimately have "(p, p) \<in> (graph_edges g)\<^sup>+" by (rule rtrancl_into_trancl2[rotated])
    then have "graph_cyclic g" by (auto simp: graph_cyclic_def)
    then show ?thesis using col GRAY by auto
  next
    case BLACK
    with col have cb: "map_of color neighbor = Some BLACK" by simp
    from "4.IH"(3)[OF col BLACK closed rest keys bc0 gray depth]
    obtain b c' where r: "dfs_loop g frames rest color = Inr (b, c')" and "b \<longrightarrow> graph_cyclic g"
      and n: "\<not> b \<longrightarrow> dfs_post g color c' \<and> (\<forall>v \<in> set rest. map_of c' v = Some BLACK)"
      by blast
    moreover have "\<not> b \<longrightarrow> map_of c' neighbor = Some BLACK"
      using n cb by (auto simp: dfs_post_def)
    ultimately show ?thesis using cb by auto
  next
    case WHITE
    with col have cw: "map_of color neighbor = Some WHITE" by simp
    have "\<forall>k. map_of color k = Some GRAY \<longrightarrow> (k, neighbor) \<in> (graph_edges g)\<^sup>*"
    proof (intro allI impI)
      fix k assume "map_of color k = Some GRAY"
      with gray have "(k, p) \<in> (graph_edges g)\<^sup>*" by simp
      moreover have "(p, neighbor) \<in> graph_edges g" using nb by (simp add: graph_edges_def)
      ultimately show "(k, neighbor) \<in> (graph_edges g)\<^sup>*" by (rule rtrancl_into_rtrancl)
    qed
    from "4.IH"(1)[OF col WHITE closed cw keys bc0 this depth]
    obtain b c1 where d: "dfs g frames neighbor color = Inr (b, c1)" and bc: "b \<longrightarrow> graph_cyclic g"
      and n1: "\<not> b \<longrightarrow> dfs_post g color c1 \<and> map_of c1 neighbor = Some BLACK"
      by blast
    show ?thesis
    proof (cases b)
      case True
      with d bc cw show ?thesis by auto
    next
      case False
      with n1 have post1: "dfs_post g color c1" and b1: "map_of c1 neighbor = Some BLACK" by auto
      have "fst ` set g \<subseteq> fst ` set c1"
        using keys post1 by (metis dfs_post_def list.set_map)
      moreover have "black_closed g c1" using post1 by (simp add: dfs_post_def)
      moreover have "\<forall>k. map_of c1 k = Some GRAY \<longrightarrow> (k, p) \<in> (graph_edges g)\<^sup>*"
        using gray post1 by (simp add: dfs_post_def)
      moreover have "whites c1 \<le> frames" using depth post1 by (simp add: dfs_post_def)
      ultimately obtain b2 c2 where r: "dfs_loop g frames rest c1 = Inr (b2, c2)"
        and bc2: "b2 \<longrightarrow> graph_cyclic g"
        and n2: "\<not> b2 \<longrightarrow> dfs_post g c1 c2 \<and> (\<forall>v \<in> set rest. map_of c2 v = Some BLACK)"
        using "4.IH"(2)[OF col WHITE d refl False closed rest] by blast
      have "\<not> b2 \<longrightarrow> dfs_post g color c2"
        using n2 post1 by (auto intro: dfs_post_trans)
      moreover have "\<not> b2 \<longrightarrow> map_of c2 neighbor = Some BLACK"
        using n2 b1 by (auto simp: dfs_post_def)
      ultimately show ?thesis using cw d False r bc2 n2 by auto
    qed
  qed
qed


lemma dfs_roots_correct:
  assumes "\<forall>u. set (graph_get g u) \<subseteq> fst ` set g"
  shows "set ks \<subseteq> fst ` set g \<Longrightarrow> fst ` set g \<subseteq> fst ` set c \<Longrightarrow> black_closed g c \<Longrightarrow>
         \<forall>k. map_of c k \<noteq> Some GRAY \<Longrightarrow> whites c \<le> frames \<Longrightarrow>
         (\<exists>c'. dfs_roots g frames ks c = Inr c' \<and> dfs_post g c c'
                \<and> (\<forall>k \<in> set ks. map_of c' k = Some BLACK))
         \<or> (dfs_roots g frames ks c = Inl (ValidationError ''DAG contains a cycle'')
              \<and> graph_cyclic g)"
proof (induction ks arbitrary: c)
  case Nil
  then show ?case by (simp add: dfs_post_refl)
next
  case (Cons k ks)
  from Cons.prems(1,2) have "k \<in> fst ` set c" by auto
  then obtain col where col: "map_of c k = Some col"
    by (metis domD dom_map_of_conv_image_fst)
  have ks: "set ks \<subseteq> fst ` set g" using Cons.prems(1) by simp
  show ?case
  proof (cases "col = WHITE")
    case False
    then have step: "dfs_roots g frames (k # ks) c = dfs_roots g frames ks c" using col by simp
    from False col Cons.prems(4) have kb: "map_of c k = Some BLACK" by (cases col) auto
    from Cons.IH[OF ks Cons.prems(2,3,4,5)] show ?thesis
    proof
      assume "\<exists>c'. dfs_roots g frames ks c = Inr c' \<and> dfs_post g c c'
                \<and> (\<forall>k \<in> set ks. map_of c' k = Some BLACK)"
      then obtain c' where "dfs_roots g frames ks c = Inr c'" "dfs_post g c c'"
        "\<forall>k \<in> set ks. map_of c' k = Some BLACK" by blast
      moreover from this(2) kb have "map_of c' k = Some BLACK" by (simp add: dfs_post_def)
      ultimately show ?thesis using step by auto
    next
      assume "dfs_roots g frames ks c = Inl (ValidationError ''DAG contains a cycle'') \<and> graph_cyclic g"
      then show ?thesis using step by simp
    qed
  next
    case True
    with col have w: "map_of c k = Some WHITE" by simp
    have "\<forall>k'. map_of c k' = Some GRAY \<longrightarrow> (k', k) \<in> (graph_edges g)\<^sup>*"
      using Cons.prems(4) by simp
    from dfs_correct(1)[OF assms w Cons.prems(2,3) this Cons.prems(5)]
    obtain b c1 where d: "dfs g frames k c = Inr (b, c1)" and bc: "b \<longrightarrow> graph_cyclic g"
      and n1: "\<not> b \<longrightarrow> dfs_post g c c1 \<and> map_of c1 k = Some BLACK"
      by blast
    show ?thesis
    proof (cases b)
      case True
      with d bc w show ?thesis by simp
    next
      case False
      with n1 have post1: "dfs_post g c c1" and b1: "map_of c1 k = Some BLACK" by auto
      have step: "dfs_roots g frames (k # ks) c = dfs_roots g frames ks c1" using w d False by simp
      have "fst ` set g \<subseteq> fst ` set c1"
        using Cons.prems(2) post1 by (metis dfs_post_def list.set_map)
      moreover have "black_closed g c1" using post1 by (simp add: dfs_post_def)
      moreover have "\<forall>k. map_of c1 k \<noteq> Some GRAY"
        using Cons.prems(4) post1 by (simp add: dfs_post_def)
      moreover have "whites c1 \<le> frames"
        using Cons.prems(5) post1 by (simp add: dfs_post_def)
      ultimately have "(\<exists>c'. dfs_roots g frames ks c1 = Inr c' \<and> dfs_post g c1 c'
                \<and> (\<forall>k \<in> set ks. map_of c' k = Some BLACK))
         \<or> (dfs_roots g frames ks c1 = Inl (ValidationError ''DAG contains a cycle'') \<and> graph_cyclic g)"
        by (rule Cons.IH[OF ks])
      then show ?thesis
      proof (elim disjE exE conjE)
        fix c'
        assume "dfs_roots g frames ks c1 = Inr c'" "dfs_post g c1 c'"
          "\<forall>k \<in> set ks. map_of c' k = Some BLACK"
        moreover from this(2) post1 have "dfs_post g c c'" by (auto intro: dfs_post_trans)
        moreover from \<open>dfs_post g c1 c'\<close> b1 have "map_of c' k = Some BLACK"
          by (simp add: dfs_post_def)
        ultimately show ?thesis using step by auto
      next
        assume "dfs_roots g frames ks c1 = Inl (ValidationError ''DAG contains a cycle'')"
          "graph_cyclic g"
        then show ?thesis using step by simp
      qed
    qed
  qed
qed

lemma map_of_init_color:
  "map_of (init_color g) k = (if k \<in> fst ` set g then Some WHITE else None)"
  by (induction g) (auto simp: init_color_def)

lemma all_same_color:
  "distinct (map fst c) \<Longrightarrow> \<forall>k \<in> set (map fst c). map_of c k = Some v \<Longrightarrow>
     c = map (\<lambda>k. (k, v)) (map fst c)"
proof (induction c)
  case Nil
  then show ?case by simp
next
  case (Cons a c)
  obtain k w where a: "a = (k, w)" by (cases a)
  from Cons.prems a have "w = v" by simp
  moreover have "\<forall>k' \<in> set (map fst c). map_of c k' = Some v"
    using Cons.prems a by (auto split: if_splits)
  ultimately show ?case using Cons a by simp
qed

lemma graph_check_correct:
  assumes closed: "\<forall>u. set (graph_get g u) \<subseteq> fst ` set g" and dist: "distinct (map fst g)"
    and depth: "length g \<le> frames"
  shows "(graph_cyclic g \<longrightarrow>
            dfs_roots g frames (map fst g) (init_color g) = Inl (ValidationError ''DAG contains a cycle''))
       \<and> (\<not> graph_cyclic g \<longrightarrow>
            dfs_roots g frames (map fst g) (init_color g) = Inr (map (\<lambda>k. (k, BLACK)) (map fst g)))"
proof -
  let ?c = "init_color g"
  have "set (map fst g) \<subseteq> fst ` set g" by simp
  moreover have "fst ` set g \<subseteq> fst ` set ?c" by (force simp: init_color_def)
  moreover have "black_closed g ?c" by (simp add: black_closed_def map_of_init_color)
  moreover have "\<forall>k. map_of ?c k \<noteq> Some GRAY" by (simp add: map_of_init_color)
  moreover have "whites ?c \<le> frames" using depth by (simp add: whites_init_color)
  ultimately have "(\<exists>c'. dfs_roots g frames (map fst g) ?c = Inr c' \<and> dfs_post g ?c c'
                \<and> (\<forall>k \<in> set (map fst g). map_of c' k = Some BLACK))
         \<or> (dfs_roots g frames (map fst g) ?c = Inl (ValidationError ''DAG contains a cycle'')
              \<and> graph_cyclic g)"
    by (rule dfs_roots_correct[OF closed])
  then show ?thesis
  proof (elim disjE exE conjE)
    fix c'
    assume r: "dfs_roots g frames (map fst g) ?c = Inr c'" and post: "dfs_post g ?c c'"
      and black: "\<forall>k \<in> set (map fst g). map_of c' k = Some BLACK"
    have keys: "map fst c' = map fst g" using post by (simp add: dfs_post_def init_color_def comp_def)
    have "\<not> graph_cyclic g"
    proof
      assume "graph_cyclic g"
      then obtain u where u: "(u, u) \<in> (graph_edges g)\<^sup>+" by (auto simp: graph_cyclic_def)
      then obtain v where "(u, v) \<in> graph_edges g" by (auto dest: tranclD)
      then have "graph_get g u \<noteq> []" by (auto simp: graph_edges_def)
      then have "u \<in> fst ` set g"
        by (auto simp: graph_get_def split: option.splits dest: map_of_SomeD intro: rev_image_eqI)
      with black have "map_of c' u = Some BLACK" by auto
      with post u show False by (auto simp: dfs_post_def black_closed_def)
    qed
    moreover have "c' = map (\<lambda>k. (k, BLACK)) (map fst g)"
      using all_same_color[of c' BLACK] keys dist black by simp
    ultimately show ?thesis using r by simp
  next
    assume "dfs_roots g frames (map fst g) ?c = Inl (ValidationError ''DAG contains a cycle'')"
      "graph_cyclic g"
    then show ?thesis by simp
  qed
qed

lemma update_append: "k \<notin> fst ` set al \<Longrightarrow> AList.update k v al = al @ [(k, v)]"
  by (induction al) auto

lemma fold_update_distinct:
  "distinct (map task_id ts) \<Longrightarrow> set (map task_id ts) \<inter> fst ` set acc = {} \<Longrightarrow>
     fold (\<lambda>task g. AList.update (task_id task) (dependencies task) g) ts acc
       = acc @ map (\<lambda>t. (task_id t, dependencies t)) ts"
proof (induction ts arbitrary: acc)
  case Nil
  then show ?case by simp
next
  case (Cons t ts)
  have "task_id t \<notin> fst ` set acc" using Cons.prems(2) by auto
  then have u: "AList.update (task_id t) (dependencies t) acc = acc @ [(task_id t, dependencies t)]"
    by (rule update_append)
  have "set (map task_id ts) \<inter> fst ` set (acc @ [(task_id t, dependencies t)]) = {}"
    using Cons.prems by auto
  from Cons.IH[OF _ this] Cons.prems(1) u show ?case by simp
qed

lemma build_graph_distinct:
  "distinct (map task_id ts) \<Longrightarrow> build_graph ts = map (\<lambda>t. (task_id t, dependencies t)) ts"
  using fold_update_distinct[of ts "[]"] by (simp add: build_graph_def)

lemma graph_edges_build_graph:
  assumes "distinct (map task_id ts)"
  shows "graph_edges (build_graph ts) = task_edges ts"
proof -
  let ?g = "map (\<lambda>t. (task_id t, dependencies t)) ts"
  have d: "distinct (map fst ?g)" using assms by (simp add: comp_def)
  have "(u, v) \<in> graph_edges ?g \<longleftrightarrow> (u, v) \<in> task_edges ts" for u v
  proof
    assume "(u, v) \<in> graph_edges ?g"
    then obtain ns where "map_of ?g u = Some ns" "v \<in> set ns"
      by (cases "map_of ?g u") (auto simp: graph_edges_def graph_get_def)
    then have "(u, ns) \<in> set ?g" by (auto dest: map_of_SomeD)
    with \<open>v \<in> set ns\<close> show "(u, v) \<in> task_edges ts" by (auto simp: task_edges_def)
  next
    assume "(u, v) \<in> task_edges ts"
    then obtain t where "t \<in> set ts" "task_id t = u" "v \<in> set (dependencies t)"
      by (auto simp: task_edges_def)
    then have "(u, dependencies t) \<in> set ?g" by force
    with d have "map_of ?g u = Some (dependencies t)" by (simp only: map_of_eq_Some_iff)
    with \<open>v \<in> set (dependencies t)\<close> show "(u, v) \<in> graph_edges ?g"
      by (simp add: graph_edges_def graph_get_def)
  qed
  then show ?thesis using build_graph_distinct[OF assms] by auto
qed

lemma check_dag_cycles_color_correct:
  assumes "distinct (map task_id ts)"
    and "\<forall>t \<in> set ts. set (dependencies t) \<subseteq> set (map task_id ts)"
    and "length ts \<le> frames"
  shows "(has_cycle ts \<longrightarrow>
            check_dag_cycles_color frames ts = Inl (ValidationError ''DAG contains a cycle''))
       \<and> (\<not> has_cycle ts \<longrightarrow>
            check_dag_cycles_color frames ts = Inr (map (\<lambda>t. (task_id t, BLACK)) ts))"
proof -
  let ?g = "build_graph ts"
  have g: "?g = map (\<lambda>t. (task_id t, dependencies t)) ts"
    by (rule build_graph_distinct[OF assms(1)])
  have keys: "map fst ?g = map task_id ts" by (simp add: g comp_def)
  have dist: "distinct (map fst ?g)" using assms(1) keys by simp
  have closed: "\<forall>u. set (graph_get ?g u) \<subseteq> fst ` set ?g"
  proof (intro allI subsetI)
    fix u v assume "v \<in> set (graph_get ?g u)"
    then have "(u, v) \<in> task_edges ts"
      using graph_edges_build_graph[OF assms(1)] by (auto simp: graph_edges_def)
    then have "v \<in> set (map task_id ts)" using assms(2) by (auto simp: task_edges_def)
    then show "v \<in> fst ` set ?g" using keys by (metis list.set_map)
  qed
  have len: "length ?g \<le> frames" using assms(3) by (simp add: g)
  have "graph_cyclic ?g = has_cycle ts"
    by (simp add: graph_cyclic_def has_cycle_def graph_edges_build_graph[OF assms(1)])
  moreover have "map (\<lambda>k. (k, BLACK)) (map fst ?g) = map (\<lambda>t. (task_id t, BLACK)) ts"
    by (simp add: keys comp_def)
  ultimately show ?thesis
    using graph_check_correct[OF closed dist len]
    by (simp add: check_dag_cycles_color_def Let_def)
qed

section \<open>No dependency resolver\<close>

text \<open>
  Claim C1, as stated, fails. The service has no \<^verbatim>\<open>ready_tasks\<close> and no
  \<^verbatim>\<open>is_terminal\<close>; task rows carry no dependencies, and the only operation that
  changes a task's status is \<^verbatim>\<open>update_task_status\<close>. In the run of the DAG
  \<open>A, B depends on A\<close>, after \<open>A\<close> is reported \<^const>\<open>FAILED\<close> the task \<open>B\<close> is still
  \<^const>\<open>PENDING\<close>, not \<^const>\<open>CANCELLED\<close>, and a report that moves \<open>B\<close> to
  \<^const>\<open>RUNNING\<close> is accepted.
\<close>

theorem failure_not_propagated_counterexample:
  "map t_status (pipeline_tasks db_a_failed) = [FAILED, PENDING]
   \<and> map t_status (pipeline_tasks (snd (update_task_status 7 db_a_failed 4 RUNNING None None 12)))
       = [FAILED, RUNNING]"
  by (simp add: db_a_failed_def example_defs)

text \<open>
  Claim C1, amended. Reporting a status for one task changes that task's row only: every
  other task of the table, in particular every task that depends on it, is left as it
  was, and can afterwards still be moved to \<^const>\<open>RUNNING\<close>.
\<close>

theorem update_task_status_single_row:
  assumes "select_task tenant s tid = Inr (Some task)"
    and "select_task tenant s tid2 = Inr (Some task2)"
    and "tid2 \<noteq> tid"
  shows "\<exists>task' s'.
           update_task_status tenant s tid status error_message logs now = (Inr task', s')
         \<and> length (pipeline_tasks s') = length (pipeline_tasks s)
         \<and> (\<forall>i < length (pipeline_tasks s).
               t_id (pipeline_tasks s ! i) \<noteq> tid \<longrightarrow> pipeline_tasks s' ! i = pipeline_tasks s ! i)
         \<and> select_task tenant s' tid2 = Inr (Some task2)
         \<and> (\<exists>task2' s''.
               update_task_status tenant s' tid2 RUNNING error_message2 logs2 now2
                 = (Inr task2', s'')
             \<and> t_status task2' = RUNNING)"
proof -
  let ?t = "set_task_status task status error_message logs now"
  let ?s = "s\<lparr>pipeline_tasks := map (\<lambda>t. if t_id t = tid then ?t else t) (pipeline_tasks s)\<rparr>"
  have u: "update_task_status tenant s tid status error_message logs now = (Inr ?t, ?s)"
    by (rule update_task_status_found[OF assms(1)])
  have "t_id ?t = tid"
    using select_task_found(2)[OF assms(1)] by simp
  then have o: "select_task tenant ?s tid2 = Inr (Some task2)"
    using select_task_other[of ?t tid tid2 tenant s] assms(2,3) by simp
  have "update_task_status tenant ?s tid2 RUNNING error_message2 logs2 now2
          = (Inr (set_task_status task2 RUNNING error_message2 logs2 now2),
             ?s\<lparr>pipeline_tasks :=
                 map (\<lambda>t. if t_id t = tid2
                           then set_task_status task2 RUNNING error_message2 logs2 now2 else t)
                   (pipeline_tasks ?s)\<rparr>)"
    by (rule update_task_status_found[OF o])
  then show ?thesis using u o by simp
qed

theorem update_task_status_single_row_witness:
  "select_task 7 db_run 3 = Inr (Some (pipeline_tasks db_run ! 0))
   \<and> select_task 7 db_run 4 = Inr (Some (pipeline_tasks db_run ! 1))
   \<and> (4::nat) \<noteq> 3
   \<and> (\<exists>task' s'. update_task_status 7 db_run 3 FAILED (Some ''boom'') None 11 = (Inr task', s')
         \<and> select_task 7 s' 4 = Inr (Some (pipeline_tasks db_run ! 1))
         \<and> pipeline_tasks s' ! 1 = pipeline_tasks db_run ! 1)"
proof -
  have a: "select_task 7 db_run 3 = Inr (Some (pipeline_tasks db_run ! 0))"
    by (simp add: example_defs)
  have b: "select_task 7 db_run 4 = Inr (Some (pipeline_tasks db_run ! 1))"
    by (simp add: example_defs)
  have c: "(4::nat) \<noteq> 3" by simp
  have l: "(1::nat) < length (pipeline_tasks db_run) \<and> t_id (pipeline_tasks db_run ! 1) \<noteq> 3"
    by (simp add: db_run_eq)
  from update_task_status_single_row[OF a b c, of FAILED "Some ''boom''" None 11 None None 12]
  obtain task' s' where
    "update_task_status 7 db_run 3 FAILED (Some ''boom'') None 11 = (Inr task', s')"
    and "\<forall>i < length (pipeline_tasks db_run).
           t_id (pipeline_tasks db_run ! i) \<noteq> 3 \<longrightarrow> pipeline_tasks s' ! i = pipeline_tasks db_run ! i"
    and "select_task 7 s' 4 = Inr (Some (pipeline_tasks db_run ! 1))"
    by blast
  with l have "update_task_status 7 db_run 3 FAILED (Some ''boom'') None 11 = (Inr task', s')
    \<and> select_task 7 s' 4 = Inr (Some (pipeline_tasks db_run ! 1))
    \<and> pipeline_tasks s' ! 1 = pipeline_tasks db_run ! 1"
    by blast
  with a b c show ?thesis by blast
qed

section \<open>Task status updates enforce no state machine and do not touch the run\<close>

text \<open>
  Claim C2, as stated, fails. \<^verbatim>\<open>update_task_status\<close> checks no transition: a task
  that is \<^const>\<open>RUNNING\<close> is set back to \<^const>\<open>PENDING\<close>. And it evaluates no run-level
  terminal check: when the last task of the run is reported \<^const>\<open>SUCCESS\<close>, every task
  is \<^const>\<open>SUCCESS\<close> and the run row is what it was, still \<^const>\<open>PENDING\<close>.
\<close>

theorem update_task_status_unchecked_counterexample:
  "map t_status (pipeline_tasks db_a_running) = [RUNNING, PENDING]
   \<and> map t_status (pipeline_tasks (snd (update_task_status 7 db_a_running 3 PENDING None None 11)))
       = [PENDING, PENDING]
   \<and> map t_status (pipeline_tasks (snd (update_task_status 7 db_a_success 4 SUCCESS None None 13)))
       = [SUCCESS, SUCCESS]
   \<and> map r_status (pipeline_runs (snd (update_task_status 7 db_a_success 4 SUCCESS None None 13)))
       = [PENDING]"
  by (simp add: db_a_running_def db_a_success_def example_defs)

text \<open>
  Claim C2, amended. \<^verbatim>\<open>update_task_status\<close> on an existing task sets the task's
  status to the requested one whatever the current status is, and writes that task row
  only: the runs (and the pipelines) are left unchanged.
\<close>

theorem update_task_status_unconditional:
  assumes "select_task tenant s tid = Inr (Some task)"
  shows "\<exists>task' s'.
           update_task_status tenant s tid status error_message logs now = (Inr task', s')
         \<and> t_status task' = status
         \<and> t_id task' = tid
         \<and> task' \<in> set (pipeline_tasks s')
         \<and> pipeline_runs s' = pipeline_runs s
         \<and> pipelines s' = pipelines s"
proof -
  let ?t = "set_task_status task status error_message logs now"
  have "?t \<in> set (map (\<lambda>t. if t_id t = tid then ?t else t) (pipeline_tasks s))"
    using select_task_found(1,2)[OF assms] by force
  then show ?thesis
    using update_task_status_found[OF assms, of status error_message logs now]
      select_task_found(2)[OF assms]
    by simp
qed

theorem update_task_status_unconditional_witness:
  "select_task 7 db_a_running 3 = Inr (Some (pipeline_tasks db_a_running ! 0))
   \<and> t_status (pipeline_tasks db_a_running ! 0) = RUNNING
   \<and> (\<exists>task' s'. update_task_status 7 db_a_running 3 PENDING None None 11 = (Inr task', s')
         \<and> t_status task' = PENDING \<and> pipeline_runs s' = pipeline_runs db_a_running)"
proof -
  have a: "select_task 7 db_a_running 3 = Inr (Some (pipeline_tasks db_a_running ! 0))"
    by (simp add: db_a_running_def example_defs)
  have b: "t_status (pipeline_tasks db_a_running ! 0) = RUNNING"
    by (simp add: db_a_running_def example_defs)
  from update_task_status_unconditional[OF a, of PENDING None None 11]
  show ?thesis using a b by auto
qed

section \<open>Run status updates enforce no state machine\<close>

text \<open>
  Claim C3, as stated, fails. \<^verbatim>\<open>update_run_status\<close> checks no transition and the
  service has no \<^verbatim>\<open>InvalidTransition\<close>: for the run that is already
  \<^const>\<open>SUCCESS\<close> (ended at time 20, no error message), a report of \<^const>\<open>FAILED\<close>
  at time 30 is accepted, and status, \<^verbatim>\<open>end_time\<close> and \<^verbatim>\<open>error_message\<close> are
  overwritten.
\<close>

theorem update_run_status_terminal_counterexample:
  "map (\<lambda>r. (r_status r, r_end_time r, r_error_message r)) (pipeline_runs db_run_success)
     = [(SUCCESS, Some 20, None)]
   \<and> map (\<lambda>r. (r_status r, r_end_time r, r_error_message r))
        (pipeline_runs (snd (update_run_status 7 db_run_success 2 FAILED (Some ''late'') 30)))
     = [(FAILED, Some 30, Some ''late'')]"
  by (simp add: db_run_success_def example_defs)

text \<open>
  Claim C3, amended. For a run whose status is already \<^const>\<open>SUCCESS\<close>,
  \<^const>\<open>FAILED\<close> or \<^const>\<open>CANCELLED\<close>, \<^verbatim>\<open>update_run_status\<close> accepts every further
  status: the status is overwritten with the requested one, \<^verbatim>\<open>end_time\<close> is stamped
  again when the requested status is one of the three, \<^verbatim>\<open>error_message\<close> is
  overwritten when a non-empty message comes with such a status, and the row is written
  back.
\<close>

theorem update_run_status_from_terminal:
  assumes "get_pipeline_run tenant s run_id = Inr run"
    and "is_finished (r_status run)"
  shows "\<exists>run' s'.
           update_run_status tenant s run_id status error_message now = (Inr run', s')
         \<and> run' \<in> set (pipeline_runs s')
         \<and> r_status run' = status
         \<and> r_start_time run' = r_start_time run
         \<and> r_end_time run' = (if is_finished status then Some now else r_end_time run)
         \<and> r_error_message run' =
             (if is_finished status \<and> truthy error_message then error_message
              else r_error_message run)"
proof -
  let ?r = "set_run_status run status error_message now"
  from assms(2) have "r_status run \<noteq> PENDING"
    by (auto simp: is_finished_def)
  then have "r_start_time ?r = r_start_time run"
    and "r_end_time ?r = (if is_finished status then Some now else r_end_time run)"
    and "r_error_message ?r =
           (if is_finished status \<and> truthy error_message then error_message
            else r_error_message run)"
    by (simp_all add: set_run_status_def Let_def)
  then show ?thesis
    using update_run_status_found[OF assms(1), of status error_message now]
      update_run_status_stored[OF assms(1), of status error_message now]
    by simp
qed

theorem update_run_status_from_terminal_witness:
  "get_pipeline_run 7 db_run_success 2 = Inr (pipeline_runs db_run_success ! 0)
   \<and> is_finished (r_status (pipeline_runs db_run_success ! 0))
   \<and> (\<exists>run' s'. update_run_status 7 db_run_success 2 RUNNING None 30 = (Inr run', s')
         \<and> r_status run' = RUNNING \<and> r_start_time run' = None \<and> r_end_time run' = Some 20)"
proof -
  have a: "get_pipeline_run 7 db_run_success 2 = Inr (pipeline_runs db_run_success ! 0)"
    by (simp add: db_run_success_def example_defs)
  have b: "is_finished (r_status (pipeline_runs db_run_success ! 0))"
    by (simp add: db_run_success_def example_defs)
  have c: "r_start_time (pipeline_runs db_run_success ! 0) = None
           \<and> r_end_time (pipeline_runs db_run_success ! 0) = Some 20"
    by (simp add: db_run_success_def example_defs)
  have d: "\<not> is_finished RUNNING"
    by (simp add: is_finished_def)
  from update_run_status_from_terminal[OF a b, of RUNNING None 30]
  show ?thesis using a b c d by auto
qed

section \<open>Cancelling a run\<close>

text \<open>
  Claim C4, as stated, fails. \<^verbatim>\<open>cancel_pipeline_run\<close> writes the run row only. For
  the run that is \<^const>\<open>RUNNING\<close> with task \<open>A\<close> \<^const>\<open>RUNNING\<close> and task \<open>B\<close>
  \<^const>\<open>PENDING\<close>, cancelling sets the run to \<^const>\<open>CANCELLED\<close> and leaves both tasks
  as they were.
\<close>

theorem cancel_pipeline_run_tasks_counterexample:
  "map r_status (pipeline_runs db_run_running) = [RUNNING]
   \<and> map t_status (pipeline_tasks db_run_running) = [RUNNING, PENDING]
   \<and> map r_status (pipeline_runs (snd (cancel_pipeline_run 7 db_run_running 2 15))) = [CANCELLED]
   \<and> map t_status (pipeline_tasks (snd (cancel_pipeline_run 7 db_run_running 2 15)))
       = [RUNNING, PENDING]"
  by (simp add: db_run_running_def db_a_running_def example_defs)

text \<open>
  Claim C4, amended. Cancelling an existing run is permitted iff the run's status is
  \<^const>\<open>PENDING\<close> or \<^const>\<open>RUNNING\<close>. In that case the run becomes
  \<^const>\<open>CANCELLED\<close> with \<^verbatim>\<open>end_time\<close> stamped, and the task rows are left unchanged.
  Otherwise the call fails with \<^verbatim>\<open>ValidationError("Cannot cancel a completed pipeline run")\<close>
  and leaves the whole database, run and task rows included, unchanged.
\<close>

theorem cancel_pipeline_run_spec:
  assumes "get_pipeline_run tenant s run_id = Inr run"
  shows "(r_status run = PENDING \<or> r_status run = RUNNING \<longrightarrow>
            (\<exists>run' s'. cancel_pipeline_run tenant s run_id now = (Inr run', s')
               \<and> run' \<in> set (pipeline_runs s')
               \<and> r_status run' = CANCELLED
               \<and> r_end_time run' = Some now
               \<and> pipeline_tasks s' = pipeline_tasks s))
       \<and> (r_status run \<noteq> PENDING \<and> r_status run \<noteq> RUNNING \<longrightarrow>
            cancel_pipeline_run tenant s run_id now =
              (Inl (ValidationError ''Cannot cancel a completed pipeline run''), s))"
proof (intro conjI impI)
  assume "r_status run = PENDING \<or> r_status run = RUNNING"
  then have c: "cancel_pipeline_run tenant s run_id now =
                  update_run_status tenant s run_id CANCELLED None now"
    using assms by (auto simp: cancel_pipeline_run_def)
  have "r_end_time (set_run_status run CANCELLED None now) = Some now"
    by (simp add: set_run_status_def is_finished_def truthy_def Let_def)
  then show "\<exists>run' s'. cancel_pipeline_run tenant s run_id now = (Inr run', s')
               \<and> run' \<in> set (pipeline_runs s')
               \<and> r_status run' = CANCELLED
               \<and> r_end_time run' = Some now
               \<and> pipeline_tasks s' = pipeline_tasks s"
    using c update_run_status_found[OF assms, of CANCELLED None now]
      update_run_status_stored[OF assms, of CANCELLED None now]
    by simp
next
  assume "r_status run \<noteq> PENDING \<and> r_status run \<noteq> RUNNING"
  then show "cancel_pipeline_run tenant s run_id now =
               (Inl (ValidationError ''Cannot cancel a completed pipeline run''), s)"
    using assms by (simp add: cancel_pipeline_run_def)
qed

theorem cancel_pipeline_run_spec_witness:
  "get_pipeline_run 7 db_run_running 2 = Inr (pipeline_runs db_run_running ! 0)
   \<and> r_status (pipeline_runs db_run_running ! 0) = RUNNING
   \<and> (\<exists>run' s'. cancel_pipeline_run 7 db_run_running 2 15 = (Inr run', s')
         \<and> r_status run' = CANCELLED \<and> r_end_time run' = Some 15
         \<and> pipeline_tasks s' = pipeline_tasks db_run_running)
   \<and> get_pipeline_run 7 db_run_success 2 = Inr (pipeline_runs db_run_success ! 0)
   \<and> r_status (pipeline_runs db_run_success ! 0) = SUCCESS
   \<and> cancel_pipeline_run 7 db_run_success 2 30 =
       (Inl (ValidationError ''Cannot cancel a completed pipeline run''), db_run_success)"
proof -
  have a: "get_pipeline_run 7 db_run_running 2 = Inr (pipeline_runs db_run_running ! 0)"
    by (simp add: db_run_running_def db_a_running_def example_defs)
  have b: "r_status (pipeline_runs db_run_running ! 0) = RUNNING"
    by (simp add: db_run_running_def db_a_running_def example_defs)
  have c: "get_pipeline_run 7 db_run_success 2 = Inr (pipeline_runs db_run_success ! 0)"
    by (simp add: db_run_success_def example_defs)
  have d: "r_status (pipeline_runs db_run_success ! 0) = SUCCESS"
    by (simp add: db_run_success_def example_defs)
  from cancel_pipeline_run_spec[OF a, of 15] b
  have "\<exists>run' s'. cancel_pipeline_run 7 db_run_running 2 15 = (Inr run', s')
         \<and> r_status run' = CANCELLED \<and> r_end_time run' = Some 15
         \<and> pipeline_tasks s' = pipeline_tasks db_run_running"
    by auto
  moreover from cancel_pipeline_run_spec[OF c, of 30] d
  have "cancel_pipeline_run 7 db_run_success 2 30 =
       (Inl (ValidationError ''Cannot cancel a completed pipeline run''), db_run_success)"
    by simp
  ultimately show ?thesis using a b c d by blast
qed

section \<open>Triggering a run\<close>



section \<open>What a run captures of the DAG\<close>

text \<open>
  Claim C6, as stated, fails. \<^verbatim>\<open>PipelineRun\<close> has no column for a DAG and
  \<^verbatim>\<open>trigger_pipeline\<close> reads of the pipeline's DAG only the \<^verbatim>\<open>task_id\<close> of each
  task: two pipelines whose DAGs differ (in \<open>dag_ab\<close> task \<open>B\<close> depends on \<open>A\<close>, in
  \<open>dag_flat\<close> it does not) give, from the same database otherwise, the same run row and
  the same task rows. The rows of a run therefore do not hold the DAG.
\<close>

theorem run_does_not_hold_dag_counterexample:
  "dag_ab \<noteq> dag_flat
   \<and> fst (trigger_pipeline 7 {} (\<lambda>k. True) db_flat 1 manual None) = fst (trigger_pipeline 7 {} (\<lambda>k. True) db_ab 1 manual None)
   \<and> pipeline_runs (snd (trigger_pipeline 7 {} (\<lambda>k. True) db_flat 1 manual None))
       = pipeline_runs (snd (trigger_pipeline 7 {} (\<lambda>k. True) db_ab 1 manual None))
   \<and> pipeline_tasks (snd (trigger_pipeline 7 {} (\<lambda>k. True) db_flat 1 manual None))
       = pipeline_tasks (snd (trigger_pipeline 7 {} (\<lambda>k. True) db_ab 1 manual None))"
  by (simp add: trigger_pipeline_def get_pipeline_def scalar_one_or_none_def
      db_flat_def db_ab_def pipeline_ab_def dag_ab_def dag_flat_def task_def_def manual_def
      add_task_def uuid4_def Let_def)

text \<open>
  Claim C6, amended. At run-creation time only the list of \<^verbatim>\<open>task_id\<close>s of the
  pipeline's current DAG is captured, as the task rows of the run: pipelines that agree on
  that list, triggered from databases that agree on runs, tasks and next primary key,
  get the same run and task rows, whatever the dependencies are. And
  \<^verbatim>\<open>update_pipeline\<close>, whatever it is given, leaves every run row and every task row
  unchanged.
\<close>

theorem run_captures_task_ids_only:
  assumes "get_pipeline tenant s pipeline_id = Inr pipeline" and "p_enabled pipeline"
    and "get_pipeline tenant s2 pipeline_id = Inr pipeline2" and "p_enabled pipeline2"
    and "pipeline_runs s2 = pipeline_runs s" and "pipeline_tasks s2 = pipeline_tasks s"
    and "next_uuid s2 = next_uuid s"
    and "map task_id (tasks (p_dag_definition pipeline2))
           = map task_id (tasks (p_dag_definition pipeline))"
  shows "fst (trigger_pipeline tenant users db_up s2 pipeline_id data user_id)
           = fst (trigger_pipeline tenant users db_up s pipeline_id data user_id)
       \<and> pipeline_runs (snd (trigger_pipeline tenant users db_up s2 pipeline_id data user_id))
           = pipeline_runs (snd (trigger_pipeline tenant users db_up s pipeline_id data user_id))
       \<and> pipeline_tasks (snd (trigger_pipeline tenant users db_up s2 pipeline_id data user_id))
           = pipeline_tasks (snd (trigger_pipeline tenant users db_up s pipeline_id data user_id))
       \<and> pipeline_runs (snd (update_pipeline tenant s pipeline_id upd)) = pipeline_runs s
       \<and> pipeline_tasks (snd (update_pipeline tenant s pipeline_id upd)) = pipeline_tasks s"
proof -
  have "new_task_rows tenant (next_uuid s) (Suc (next_uuid s)) (tasks (p_dag_definition pipeline2))
      = new_task_rows tenant (next_uuid s) (Suc (next_uuid s)) (tasks (p_dag_definition pipeline))"
    by (rule new_task_rows_cong[OF assms(8)])
  then have "fst (trigger_pipeline tenant users db_up s2 pipeline_id data user_id)
           = fst (trigger_pipeline tenant users db_up s pipeline_id data user_id)"
    and "pipeline_runs (snd (trigger_pipeline tenant users db_up s2 pipeline_id data user_id))
           = pipeline_runs (snd (trigger_pipeline tenant users db_up s pipeline_id data user_id))"
    and "pipeline_tasks (snd (trigger_pipeline tenant users db_up s2 pipeline_id data user_id))
           = pipeline_tasks (snd (trigger_pipeline tenant users db_up s pipeline_id data user_id))"
    using trigger_pipeline_found[OF assms(1,2), of users db_up data user_id]
      trigger_pipeline_found[OF assms(3,4), of users db_up data user_id] assms(5,6,7)
      map_eq_imp_length_eq[OF assms(8)]
    by simp_all
  moreover have "pipeline_runs (snd (update_pipeline tenant s pipeline_id upd)) = pipeline_runs s"
    and "pipeline_tasks (snd (update_pipeline tenant s pipeline_id upd)) = pipeline_tasks s"
    by (simp_all add: update_pipeline_def Let_def split: sum.splits option.splits)
  ultimately show ?thesis by simp
qed

theorem run_captures_task_ids_only_witness:
  "get_pipeline 7 db_ab 1 = Inr pipeline_ab \<and> p_enabled pipeline_ab
   \<and> get_pipeline 7 db_flat 1 = Inr (pipeline_ab\<lparr>p_dag_definition := dag_flat\<rparr>)
   \<and> p_enabled (pipeline_ab\<lparr>p_dag_definition := dag_flat\<rparr>)
   \<and> pipeline_runs db_flat = pipeline_runs db_ab
   \<and> pipeline_tasks db_flat = pipeline_tasks db_ab
   \<and> next_uuid db_flat = next_uuid db_ab
   \<and> map task_id (tasks (p_dag_definition (pipeline_ab\<lparr>p_dag_definition := dag_flat\<rparr>)))
       = map task_id (tasks (p_dag_definition pipeline_ab))
   \<and> map (dependencies) (tasks dag_flat) \<noteq> map dependencies (tasks dag_ab)
   \<and> pipeline_tasks (snd (trigger_pipeline 7 {9} (\<lambda>k. True) db_flat 1 manual (Some 9)))
       = pipeline_tasks (snd (trigger_pipeline 7 {9} (\<lambda>k. True) db_ab 1 manual (Some 9)))
   \<and> pipeline_tasks
        (snd (update_pipeline 7 db_ab 1
               \<lparr>u_description = None, u_dag_definition = Some dag_flat,
                u_schedule = None, u_enabled = None\<rparr>))
       = pipeline_tasks db_ab"
proof -
  have a: "get_pipeline 7 db_ab 1 = Inr pipeline_ab"
    by (simp add: get_pipeline_def db_ab_def pipeline_ab_def scalar_one_or_none_def)
  have b: "p_enabled pipeline_ab"
    by (simp add: pipeline_ab_def)
  have c: "get_pipeline 7 db_flat 1 = Inr (pipeline_ab\<lparr>p_dag_definition := dag_flat\<rparr>)"
    by (simp add: get_pipeline_def db_flat_def db_ab_def pipeline_ab_def scalar_one_or_none_def)
  have d: "p_enabled (pipeline_ab\<lparr>p_dag_definition := dag_flat\<rparr>)"
    by (simp add: pipeline_ab_def)
  have e: "pipeline_runs db_flat = pipeline_runs db_ab"
    and f: "pipeline_tasks db_flat = pipeline_tasks db_ab"
    and g: "next_uuid db_flat = next_uuid db_ab"
    by (simp_all add: db_flat_def)
  have h: "map task_id (tasks (p_dag_definition (pipeline_ab\<lparr>p_dag_definition := dag_flat\<rparr>)))
             = map task_id (tasks (p_dag_definition pipeline_ab))"
    by (simp add: pipeline_ab_def dag_ab_def dag_flat_def task_def_def)
  have i: "map (dependencies) (tasks dag_flat) \<noteq> map dependencies (tasks dag_ab)"
    by (simp add: dag_ab_def dag_flat_def task_def_def)
  from run_captures_task_ids_only[OF a b c d e f g h, of "{9}" "\<lambda>k. True" manual "Some 9"
      "\<lparr>u_description = None, u_dag_definition = Some dag_flat,
        u_schedule = None, u_enabled = None\<rparr>"]
  show ?thesis using a b c d e f g h i by simp
qed

section \<open>Correctness of the cycle check\<close>

text \<open>
  Claim C7. For the cyclic DAG \<open>A, B, C\<close> the validator answers "DAG contains a cycle",
  and for the DAG in which \<open>B\<close> and \<open>C\<close> both depend on \<open>A\<close> it succeeds, when the
  interpreter grants the traversal three frames, respectively one. In general, for a DAG
  that passes the structural checks and has no more tasks than the interpreter grants
  frames, the three-colour depth-first traversal started from every node that is still
  \<^const>\<open>WHITE\<close> reports a cycle exactly when the dependency relation has one, in whatever
  part of the graph; and when it reports none, it ends with every node \<^const>\<open>BLACK\<close>,
  that is, visited and finished.
\<close>

theorem validate_dag_cycle_check:
  assumes "tasks dag \<noteq> []" and "[] \<notin> set (map task_id (tasks dag))"
    and "distinct (map task_id (tasks dag))"
    and "set (concat (map dependencies (tasks dag))) \<subseteq> set (map task_id (tasks dag))"
    and "length (tasks dag) \<le> frames"
  shows "(3 \<le> frames \<longrightarrow>
            validate_dag frames dag_cycle = Inl (ValidationError ''DAG contains a cycle''))
       \<and> (1 \<le> frames \<longrightarrow> validate_dag frames dag_diamond = Inr ())
       \<and> (has_cycle (tasks dag) \<longrightarrow>
            validate_dag frames dag = Inl (ValidationError ''DAG contains a cycle''))
       \<and> (\<not> has_cycle (tasks dag) \<longrightarrow>
            validate_dag frames dag = Inr ()
          \<and> check_dag_cycles_color frames (tasks dag)
              = Inr (map (\<lambda>t. (task_id t, BLACK)) (tasks dag)))"
proof -
  from assms(2) have ids: "\<forall>t \<in> set (tasks dag). task_id t \<noteq> []" by force
  from assms(4)
  have deps: "\<forall>t \<in> set (tasks dag). set (dependencies t) \<subseteq> set (map task_id (tasks dag))"
    by auto
  have "validate_dag frames dag_cycle = Inl (ValidationError ''DAG contains a cycle'')"
    if "3 \<le> frames"
  proof -
    from that obtain k where "frames = Suc (Suc (Suc k))"
      by (metis Suc_le_D numeral_3_eq_3 Suc_le_mono)
    then show ?thesis
      by (simp add: validate_dag_def dag_cycle_def task_def_def check_dag_cycles_def
          check_dag_cycles_color_def build_graph_def init_color_def graph_get_def Let_def)
  qed
  moreover have "validate_dag frames dag_diamond = Inr ()" if "1 \<le> frames"
  proof -
    from that obtain k where "frames = Suc k"
      by (cases frames) auto
    then show ?thesis
      by (simp add: validate_dag_def dag_diamond_def task_def_def check_dag_cycles_def
          check_dag_cycles_color_def build_graph_def init_color_def graph_get_def Let_def)
  qed
  moreover have "validate_dag frames dag = check_dag_cycles frames (tasks dag)"
    by (rule validate_dag_checked[OF assms(1) ids assms(3) deps])
  ultimately show ?thesis
    using check_dag_cycles_color_correct[OF assms(3) deps assms(5)]
    by (auto simp: check_dag_cycles_def)
qed

theorem validate_dag_cycle_check_witness:
  "tasks dag_two_parts \<noteq> [] \<and> [] \<notin> set (map task_id (tasks dag_two_parts))
   \<and> distinct (map task_id (tasks dag_two_parts))
   \<and> set (concat (map dependencies (tasks dag_two_parts)))
       \<subseteq> set (map task_id (tasks dag_two_parts))
   \<and> length (tasks dag_two_parts) \<le> 4
   \<and> validate_dag 4 dag_two_parts = Inl (ValidationError ''DAG contains a cycle'')
   \<and> has_cycle (tasks dag_two_parts)
   \<and> tasks dag_diamond \<noteq> [] \<and> [] \<notin> set (map task_id (tasks dag_diamond))
   \<and> distinct (map task_id (tasks dag_diamond))
   \<and> set (concat (map dependencies (tasks dag_diamond)))
       \<subseteq> set (map task_id (tasks dag_diamond))
   \<and> length (tasks dag_diamond) \<le> 3
   \<and> validate_dag 3 dag_diamond = Inr ()
   \<and> \<not> has_cycle (tasks dag_diamond)
   \<and> check_dag_cycles_color 3 (tasks dag_diamond)
       = Inr [(''A'', BLACK), (''B'', BLACK), (''C'', BLACK)]
   \<and> validate_dag 3 dag_cycle = Inl (ValidationError ''DAG contains a cycle'')
   \<and> validate_dag 2 dag_cycle = Inl RecursionError"
proof -
  have a: "tasks dag_two_parts \<noteq> []" "[] \<notin> set (map task_id (tasks dag_two_parts))"
    "distinct (map task_id (tasks dag_two_parts))"
    "set (concat (map dependencies (tasks dag_two_parts)))
       \<subseteq> set (map task_id (tasks dag_two_parts))"
    "length (tasks dag_two_parts) \<le> 4"
    by (simp_all add: dag_two_parts_def task_def_def)
  have b: "tasks dag_diamond \<noteq> []" "[] \<notin> set (map task_id (tasks dag_diamond))"
    "distinct (map task_id (tasks dag_diamond))"
    "set (concat (map dependencies (tasks dag_diamond)))
       \<subseteq> set (map task_id (tasks dag_diamond))"
    "length (tasks dag_diamond) \<le> 3"
    by (simp_all add: dag_diamond_def task_def_def)
  have v: "validate_dag 4 dag_two_parts = Inl (ValidationError ''DAG contains a cycle'')"
    by (simp add: validate_dag_def dag_two_parts_def task_def_def check_dag_cycles_def
        check_dag_cycles_color_def build_graph_def init_color_def graph_get_def Let_def
        numeral_eq_Suc)
  have r: "validate_dag 2 dag_cycle = Inl RecursionError"
    by (simp add: validate_dag_def dag_cycle_def task_def_def check_dag_cycles_def
        check_dag_cycles_color_def build_graph_def init_color_def graph_get_def Let_def
        numeral_eq_Suc)
  have m: "map (\<lambda>t. (task_id t, BLACK)) (tasks dag_diamond)
             = [(''A'', BLACK), (''B'', BLACK), (''C'', BLACK)]"
    by (simp add: dag_diamond_def task_def_def)
  from validate_dag_cycle_check[OF a] v have "has_cycle (tasks dag_two_parts)"
    by auto
  moreover from validate_dag_cycle_check[OF b]
  have "validate_dag 3 dag_diamond = Inr () \<and> \<not> has_cycle (tasks dag_diamond)
        \<and> check_dag_cycles_color 3 (tasks dag_diamond)
            = Inr [(''A'', BLACK), (''B'', BLACK), (''C'', BLACK)]
        \<and> validate_dag 3 dag_cycle = Inl (ValidationError ''DAG contains a cycle'')"
    using m by auto
  ultimately show ?thesis using a b v r by blast
qed

section \<open>The structural checks of the validator\<close>

text \<open>
  Claim C8. \<^verbatim>\<open>_validate_dag\<close> applies its structural checks in order, each with a
  failure of its own: a DAG without tasks is rejected with "DAG must have at least one
  task"; a DAG in which a \<^verbatim>\<open>task_id\<close> occurs twice is rejected with "Duplicate
  task_id: " followed by the first id that repeats an earlier one, whatever its
  dependencies are; a DAG with tasks and distinct ids, one of whose dependencies is not
  the id of a task, is rejected with the message "Task", the id of such a task between
  apostrophes, "depends on unknown task", and that unknown dependency between
  apostrophes, whether or not the DAG also has a cycle. The three messages differ for
  all ids, and none of the three depends on the frames granted to the traversal. The
  hypothesis, that no task id is empty, is the constraint \<^verbatim>\<open>min_length=1\<close> of
  \<^verbatim>\<open>TaskDefinition.task_id\<close>.
\<close>

theorem validate_dag_structural_checks:
  assumes "[] \<notin> set (map task_id (tasks dag))"
  shows "(tasks dag = [] \<longrightarrow>
            validate_dag frames dag = Inl (ValidationError ''DAG must have at least one task''))
       \<and> (\<not> distinct (map task_id (tasks dag)) \<longrightarrow>
            (\<exists>pre d post. map task_id (tasks dag) = pre @ d # post \<and> distinct pre \<and> d \<in> set pre
               \<and> validate_dag frames dag = Inl (ValidationError (''Duplicate task_id: '' @ d))))
       \<and> (tasks dag \<noteq> [] \<and> distinct (map task_id (tasks dag))
            \<and> \<not> set (concat (map dependencies (tasks dag))) \<subseteq> set (map task_id (tasks dag)) \<longrightarrow>
            (\<exists>t dep. t \<in> set (tasks dag) \<and> dep \<in> set (dependencies t)
               \<and> dep \<notin> set (map task_id (tasks dag))
               \<and> validate_dag frames dag =
                   Inl (ValidationError
                          (''Task '' @ [CHR 0x27] @ task_id t @ [CHR 0x27] @ '' depends on unknown task ''
                @ [CHR 0x27] @ dep @ [CHR 0x27]))))
       \<and> (\<forall>d t dep.
             ''DAG must have at least one task'' \<noteq> ''Duplicate task_id: '' @ d
           \<and> ''DAG must have at least one task''
               \<noteq> ''Task '' @ [CHR 0x27] @ t @ [CHR 0x27] @ '' depends on unknown task ''
                @ [CHR 0x27] @ dep @ [CHR 0x27]
           \<and> ''Duplicate task_id: '' @ d
               \<noteq> ''Task '' @ [CHR 0x27] @ t @ [CHR 0x27] @ '' depends on unknown task ''
                @ [CHR 0x27] @ dep @ [CHR 0x27])"
proof (intro conjI impI)
  assume "tasks dag = []"
  then show "validate_dag frames dag = Inl (ValidationError ''DAG must have at least one task'')"
    by (simp add: validate_dag_def)
next
  from assms have ids: "\<forall>t \<in> set (tasks dag). task_id t \<noteq> []" by force
  assume nd: "\<not> distinct (map task_id (tasks dag))"
  then have ne: "tasks dag \<noteq> []" by auto
  from nd have "\<not> (distinct (map task_id (tasks dag)) \<and> set (map task_id (tasks dag)) \<inter> {} = {})"
    by simp
  from validate_task_ids_dup[OF ids this]
  obtain pre d post where p: "map task_id (tasks dag) = pre @ d # post" "distinct pre"
    "d \<in> set pre"
    "validate_task_ids (tasks dag) {} = Inl (ValidationError (''Duplicate task_id: '' @ d))"
    by auto
  from p(4) ne have "validate_dag frames dag = Inl (ValidationError (''Duplicate task_id: '' @ d))"
    by (simp add: validate_dag_def Let_def)
  with p(1,2,3) show "\<exists>pre d post. map task_id (tasks dag) = pre @ d # post \<and> distinct pre
      \<and> d \<in> set pre \<and> validate_dag frames dag = Inl (ValidationError (''Duplicate task_id: '' @ d))"
    by blast
next
  from assms have ids: "\<forall>t \<in> set (tasks dag). task_id t \<noteq> []" by force
  assume a: "tasks dag \<noteq> [] \<and> distinct (map task_id (tasks dag))
            \<and> \<not> set (concat (map dependencies (tasks dag))) \<subseteq> set (map task_id (tasks dag))"
  then have v: "validate_task_ids (tasks dag) {} = Inr (set (map task_id (tasks dag)))"
    using validate_task_ids_ok[OF ids, of "{}"] by simp
  from a have "\<not> (\<forall>t \<in> set (tasks dag). set (dependencies t) \<subseteq> set (map task_id (tasks dag)))"
    by auto
  from validate_dependencies_unknown[OF this]
  obtain t dep where u: "t \<in> set (tasks dag)" "dep \<in> set (dependencies t)"
    "dep \<notin> set (map task_id (tasks dag))"
    "validate_dependencies (tasks dag) (set (map task_id (tasks dag))) =
       Inl (ValidationError
              (''Task '' @ [CHR 0x27] @ task_id t @ [CHR 0x27] @ '' depends on unknown task ''
                @ [CHR 0x27] @ dep @ [CHR 0x27]))"
    by blast
  from u(4) v a have "validate_dag frames dag =
       Inl (ValidationError
              (''Task '' @ [CHR 0x27] @ task_id t @ [CHR 0x27] @ '' depends on unknown task ''
                @ [CHR 0x27] @ dep @ [CHR 0x27]))"
    by (simp add: validate_dag_def Let_def)
  with u(1,2,3) show "\<exists>t dep. t \<in> set (tasks dag) \<and> dep \<in> set (dependencies t)
               \<and> dep \<notin> set (map task_id (tasks dag))
               \<and> validate_dag frames dag =
                   Inl (ValidationError
                          (''Task '' @ [CHR 0x27] @ task_id t @ [CHR 0x27] @ '' depends on unknown task ''
                @ [CHR 0x27] @ dep @ [CHR 0x27]))"
    by blast
next
  show "\<forall>d t dep.
             ''DAG must have at least one task'' \<noteq> ''Duplicate task_id: '' @ d
           \<and> ''DAG must have at least one task''
               \<noteq> ''Task '' @ [CHR 0x27] @ t @ [CHR 0x27] @ '' depends on unknown task ''
                @ [CHR 0x27] @ dep @ [CHR 0x27]
           \<and> ''Duplicate task_id: '' @ d
               \<noteq> ''Task '' @ [CHR 0x27] @ t @ [CHR 0x27] @ '' depends on unknown task ''
                @ [CHR 0x27] @ dep @ [CHR 0x27]"
    by simp
qed

theorem validate_dag_structural_checks_witness:
  "[] \<notin> set (map task_id (tasks dag_empty))
   \<and> validate_dag 0 dag_empty = Inl (ValidationError ''DAG must have at least one task'')
   \<and> [] \<notin> set (map task_id (tasks dag_duplicate))
   \<and> \<not> distinct (map task_id (tasks dag_duplicate))
   \<and> validate_dag 0 dag_duplicate = Inl (ValidationError ''Duplicate task_id: A'')
   \<and> [] \<notin> set (map task_id (tasks dag_dangling))
   \<and> distinct (map task_id (tasks dag_dangling))
   \<and> \<not> set (concat (map dependencies (tasks dag_dangling)))
         \<subseteq> set (map task_id (tasks dag_dangling))
   \<and> validate_dag 0 dag_dangling =
       Inl (ValidationError (''Task 'B' depends on unknown task 'Z'' @ [CHR 0x27]))"
proof -
  have e: "[] \<notin> set (map task_id (tasks dag_empty))" "tasks dag_empty = []"
    by (simp_all add: dag_empty_def)
  have d: "[] \<notin> set (map task_id (tasks dag_duplicate))"
    "\<not> distinct (map task_id (tasks dag_duplicate))"
    by (simp_all add: dag_duplicate_def task_def_def)
  have g: "[] \<notin> set (map task_id (tasks dag_dangling))"
    "distinct (map task_id (tasks dag_dangling))"
    "\<not> set (concat (map dependencies (tasks dag_dangling)))
         \<subseteq> set (map task_id (tasks dag_dangling))"
    by (simp_all add: dag_dangling_def task_def_def)
  have v: "validate_dag 0 dag_dangling =
       Inl (ValidationError (''Task 'B' depends on unknown task 'Z'' @ [CHR 0x27]))"
    by (simp add: validate_dag_def dag_dangling_def task_def_def)
  from validate_dag_structural_checks[OF e(1)] e(2)
  have "validate_dag 0 dag_empty = Inl (ValidationError ''DAG must have at least one task'')"
    by blast
  moreover from validate_dag_structural_checks[OF d(1)] d(2)
  have "\<exists>x. validate_dag 0 dag_duplicate = Inl (ValidationError (''Duplicate task_id: '' @ x))"
    by blast
  then have "validate_dag 0 dag_duplicate = Inl (ValidationError ''Duplicate task_id: A'')"
    by (simp add: validate_dag_def dag_duplicate_def task_def_def)
  ultimately show ?thesis using e d g v by blast
qed

section \<open>Time stamps and error messages\<close>

text \<open>
  Claim C9, as stated, fails. The guard of the \<^verbatim>\<open>start_time\<close> assignment tests the
  status of the row, not whether \<^verbatim>\<open>start_time\<close> is set. The run dispatched at time 10
  and set back to \<^const>\<open>PENDING\<close> (an update the service accepts) has
  \<^verbatim>\<open>start_time = 10\<close>; dispatching it again at time 12 stamps \<^verbatim>\<open>start_time\<close> anew.
\<close>

theorem start_time_restamped_counterexample:
  "map (\<lambda>r. (r_status r, r_start_time r)) (pipeline_runs db_run_back) = [(PENDING, Some 10)]
   \<and> map (\<lambda>r. (r_status r, r_start_time r))
        (pipeline_runs (snd (update_run_status 7 db_run_back 2 RUNNING None 12)))
     = [(RUNNING, Some 12)]"
  by (simp add: db_run_back_def db_run_running_def db_a_running_def example_defs)

text \<open>
  Claim C9, amended. For runs and for tasks alike: an update to \<^const>\<open>RUNNING\<close> of a
  row whose status is \<^const>\<open>PENDING\<close> sets \<^verbatim>\<open>start_time\<close> to the current time,
  whether or not it was set before; every other update leaves \<^verbatim>\<open>start_time\<close> as it
  is, so that a second report of \<^const>\<open>RUNNING\<close> for a row already \<^const>\<open>RUNNING\<close>
  does not stamp it again. Every update to \<^const>\<open>SUCCESS\<close>, \<^const>\<open>FAILED\<close> or
  \<^const>\<open>CANCELLED\<close> sets \<^verbatim>\<open>end_time\<close> to the current time, and an update to
  \<^const>\<open>FAILED\<close> that comes with a non-empty \<^verbatim>\<open>error_message\<close> records it.
\<close>

theorem status_update_stamps:
  assumes "get_pipeline_run tenant s run_id = Inr run"
    and "select_task tenant s tid = Inr (Some task)"
  shows "\<exists>run' s1 task' s2.
           update_run_status tenant s run_id status error_message now = (Inr run', s1)
         \<and> update_task_status tenant s tid status error_message logs now = (Inr task', s2)
         \<and> r_start_time run' =
             (if status = RUNNING \<and> r_status run = PENDING then Some now else r_start_time run)
         \<and> t_start_time task' =
             (if status = RUNNING \<and> t_status task = PENDING then Some now else t_start_time task)
         \<and> r_end_time run' = (if is_finished status then Some now else r_end_time run)
         \<and> t_end_time task' = (if is_finished status then Some now else t_end_time task)
         \<and> (status = FAILED \<and> truthy error_message \<longrightarrow>
               r_error_message run' = error_message \<and> t_error_message task' = error_message)"
proof -
  let ?r = "set_run_status run status error_message now"
  let ?t = "set_task_status task status error_message logs now"
  have "r_start_time ?r =
          (if status = RUNNING \<and> r_status run = PENDING then Some now else r_start_time run)"
    and "r_end_time ?r = (if is_finished status then Some now else r_end_time run)"
    and "status = FAILED \<and> truthy error_message \<longrightarrow> r_error_message ?r = error_message"
    by (simp_all add: set_run_status_def is_finished_def Let_def)
  moreover have "t_start_time ?t =
          (if status = RUNNING \<and> t_status task = PENDING then Some now else t_start_time task)"
    and "t_end_time ?t = (if is_finished status then Some now else t_end_time task)"
    and "status = FAILED \<and> truthy error_message \<longrightarrow> t_error_message ?t = error_message"
    by (simp_all add: set_task_status_def is_finished_def Let_def)
  ultimately show ?thesis
    using update_run_status_found[OF assms(1), of status error_message now]
      update_task_status_found[OF assms(2), of status error_message logs now]
    by simp
qed

theorem status_update_stamps_witness:
  "get_pipeline_run 7 db_run_running 2 = Inr (pipeline_runs db_run_running ! 0)
   \<and> select_task 7 db_run_running 3 = Inr (Some (pipeline_tasks db_run_running ! 0))
   \<and> (\<exists>run' s1 task' s2.
         update_run_status 7 db_run_running 2 RUNNING None 14 = (Inr run', s1)
       \<and> update_task_status 7 db_run_running 3 RUNNING None None 14 = (Inr task', s2)
       \<and> r_start_time run' = Some 10 \<and> t_start_time task' = Some 10)
   \<and> (\<exists>run' s1 task' s2.
         update_run_status 7 db_run_running 2 FAILED (Some ''boom'') 16 = (Inr run', s1)
       \<and> update_task_status 7 db_run_running 3 FAILED (Some ''boom'') None 16 = (Inr task', s2)
       \<and> r_end_time run' = Some 16 \<and> t_end_time task' = Some 16
       \<and> r_error_message run' = Some ''boom'' \<and> t_error_message task' = Some ''boom'')"
proof -
  have a: "get_pipeline_run 7 db_run_running 2 = Inr (pipeline_runs db_run_running ! 0)"
    by (simp add: db_run_running_def db_a_running_def example_defs)
  have b: "select_task 7 db_run_running 3 = Inr (Some (pipeline_tasks db_run_running ! 0))"
    by (simp add: db_run_running_def db_a_running_def example_defs)
  have c: "r_status (pipeline_runs db_run_running ! 0) = RUNNING
           \<and> r_start_time (pipeline_runs db_run_running ! 0) = Some 10
           \<and> t_status (pipeline_tasks db_run_running ! 0) = RUNNING
           \<and> t_start_time (pipeline_tasks db_run_running ! 0) = Some 10"
    by (simp add: db_run_running_def db_a_running_def example_defs)
  have d: "is_finished FAILED" "truthy (Some ''boom'')"
    by (simp_all add: is_finished_def truthy_def)
  from status_update_stamps[OF a b, of RUNNING None 14 None] c
  have "\<exists>run' s1 task' s2.
         update_run_status 7 db_run_running 2 RUNNING None 14 = (Inr run', s1)
       \<and> update_task_status 7 db_run_running 3 RUNNING None None 14 = (Inr task', s2)
       \<and> r_start_time run' = Some 10 \<and> t_start_time task' = Some 10"
    by auto
  moreover from status_update_stamps[OF a b, of FAILED "Some ''boom''" 16 None] d
  have "\<exists>run' s1 task' s2.
         update_run_status 7 db_run_running 2 FAILED (Some ''boom'') 16 = (Inr run', s1)
       \<and> update_task_status 7 db_run_running 3 FAILED (Some ''boom'') None 16 = (Inr task', s2)
       \<and> r_end_time run' = Some 16 \<and> t_end_time task' = Some 16
       \<and> r_error_message run' = Some ''boom'' \<and> t_error_message task' = Some ''boom''"
    by auto
  ultimately show ?thesis using a b by blast
qed

section \<open>Task status updates keep what is not supplied\<close>

text \<open>
  Claim C10. \<^verbatim>\<open>update_task_status\<close>, for every target status: when
  \<^verbatim>\<open>error_message\<close> is \<^verbatim>\<open>None\<close> the stored \<^verbatim>\<open>error_message\<close> of the task is left as
  it was, when \<^verbatim>\<open>logs\<close> is \<^verbatim>\<open>None\<close> the stored \<^verbatim>\<open>logs\<close> are left as they were, and
  a non-empty \<^verbatim>\<open>logs\<close> value replaces the stored logs (it is not appended to them).
  The row returned is the row written to the table.
\<close>

theorem update_task_status_keeps_unsupplied:
  assumes "select_task tenant s tid = Inr (Some task)"
  shows "\<exists>task' s'.
           update_task_status tenant s tid status error_message logs now = (Inr task', s')
         \<and> task' \<in> set (pipeline_tasks s')
         \<and> (error_message = None \<longrightarrow> t_error_message task' = t_error_message task)
         \<and> (logs = None \<longrightarrow> t_logs task' = t_logs task)
         \<and> (\<forall>l. logs = Some l \<and> l \<noteq> [] \<longrightarrow> t_logs task' = Some l)"
proof -
  let ?t = "set_task_status task status error_message logs now"
  note f = update_task_status_found[OF assms, of status error_message logs now]
  have "?t \<in> set (map (\<lambda>t. if t_id t = tid then ?t else t) (pipeline_tasks s))"
    using select_task_found(1,2)[OF assms] by force
  moreover have "error_message = None \<longrightarrow> t_error_message ?t = t_error_message task"
    by (simp add: set_task_status_def truthy_def Let_def)
  moreover have "logs = None \<longrightarrow> t_logs ?t = t_logs task"
    by (simp add: set_task_status_def truthy_def Let_def)
  moreover have "\<forall>l. logs = Some l \<and> l \<noteq> [] \<longrightarrow> t_logs ?t = Some l"
    by (simp add: set_task_status_def truthy_def Let_def)
  ultimately show ?thesis using f by simp
qed

theorem update_task_status_keeps_unsupplied_witness:
  "select_task 7 db_a_failed 3 = Inr (Some task_a_failed)
   \<and> (\<exists>task' s'. update_task_status 7 db_a_failed 3 RUNNING None None 12 = (Inr task', s')
         \<and> t_error_message task' = Some ''boom'' \<and> t_logs task' = Some ''line 1'')"
proof -
  have h: "select_task 7 db_a_failed 3 = Inr (Some task_a_failed)"
    by (simp add: db_a_failed_def db_run_eq update_task_status_def select_task_def
        scalar_one_or_none_def set_task_status_def is_finished_def truthy_def
        task_a_failed_def Let_def)
  from update_task_status_keeps_unsupplied[OF h, of RUNNING None None 12]
  show ?thesis using h by (auto simp: task_a_failed_def)
qed

end
